theory Spec2Isabelle
  imports Main
begin

section \<open>Values, errors and outcomes\<close>

text \<open>
  A shallow embedding of the connection pool of \<^verbatim>\<open>pool.go\<close>, \<^verbatim>\<open>conn.go\<close> and the
  counter and statistics files. Go objects reached through pointers (\<^verbatim>\<open>*pool\<close>,
  \<^verbatim>\<open>*conn\<close>) live in an explicit store: a pointer is an index into a list of objects, so
  that a wrapper held by a caller and the same wrapper sitting in the idle channel are
  one object. Every operation is modelled as it runs sequentially, to completion; the
  mutexes are therefore no-ops and are left out. Go's \<^verbatim>\<open>int\<close> and \<^verbatim>\<open>int64\<close> are modelled
  as unbounded integers: the counters move by one per call and never come near
  \<open>2 ^ 63\<close>.

  A physical connection (a \<^verbatim>\<open>net.Conn\<close> made by the factory) is an opaque identity.
\<close>

type_synonym rawconn = nat

datatype error =
    ErrClosed              \<comment> \<open>the package variable \<^verbatim>\<open>ErrClosed\<close>\<close>
  | Errorf string          \<comment> \<open>an error built by \<^verbatim>\<open>fmt.Errorf\<close> inside the package\<close>
  | External string        \<comment> \<open>an error made outside the package (factory, physical close)\<close>

fun error_msg :: "error \<Rightarrow> string" where
  "error_msg ErrClosed = ''pool is closed''"
| "error_msg (Errorf s) = s"
| "error_msg (External s) = s"

text \<open>A value of the interface type \<^verbatim>\<open>net.Conn\<close> as a caller can hold it.\<close>

datatype netconn =
    NilConn                \<comment> \<open>the nil interface\<close>
  | Wrapper nat            \<comment> \<open>a \<^verbatim>\<open>*conn\<close>: the address of a wrapper\<close>
  | RawConn rawconn        \<comment> \<open>any other implementation of \<^verbatim>\<open>net.Conn\<close>\<close>

text \<open>Ways in which a call does not return: a run-time panic, or a send that blocks forever.\<close>

datatype fatal = Panic | Deadlock

section \<open>Data model\<close>

record Config =
  MinSize :: int
  MaxSize :: int
  Increment :: int
  IdleTimeout :: int

text \<open>
  The factory is a Go closure; its \<open>k\<close>-th invocation (counted per pool, from 0) returns
  \<open>factory k\<close>: an error, or a connection that may be nil (\<open>None\<close>).
\<close>

type_synonym Factory = "nat \<Rightarrow> error + rawconn option"

record conn =
  lastUsed :: int
  conn_p :: nat                     \<comment> \<open>field \<^verbatim>\<open>p putter\<close>: the owning pool\<close>
  unUsable :: bool
  Conn :: "rawconn option"          \<comment> \<open>the embedded \<^verbatim>\<open>net.Conn\<close>, \<open>None\<close> when nil\<close>

text \<open>A buffered channel of wrapper addresses: first in, first out, with a fixed capacity.\<close>

record chan =
  buf :: "nat list"
  cap :: nat

record stats =
  size_c :: int                     \<comment> \<open>counter \<^verbatim>\<open>size\<close>\<close>
  request :: int
  success :: int

record pool =
  name :: string
  cfg :: Config
  factory :: Factory
  conns :: "chan option"            \<comment> \<open>\<open>None\<close> is the nil channel\<close>
  running :: int
  stats :: stats
  factoryCalls :: nat               \<comment> \<open>ghost: how often this pool has invoked its factory\<close>

record world =
  heap :: "conn list"               \<comment> \<open>the \<^verbatim>\<open>*conn\<close> objects, by address\<close>
  pools :: "pool list"              \<comment> \<open>the \<^verbatim>\<open>*pool\<close> objects, by address\<close>
  connPoolCounter :: int
  clock :: "nat \<Rightarrow> int"             \<comment> \<open>the \<open>k\<close>-th reading of \<^verbatim>\<open>time.Now().UnixNano()\<close>\<close>
  ticks :: nat                      \<comment> \<open>readings taken so far\<close>
  closed :: "rawconn list"          \<comment> \<open>physical connections closed so far, in order\<close>
  closeErr :: "rawconn \<Rightarrow> error option"  \<comment> \<open>what a physical \<^verbatim>\<open>Close\<close> returns\<close>

definition init_world :: "(nat \<Rightarrow> int) \<Rightarrow> (rawconn \<Rightarrow> error option) \<Rightarrow> world" where
  "init_world clk cerr =
     \<lparr>heap = [], pools = [], connPoolCounter = 0, clock = clk, ticks = 0,
      closed = [], closeErr = cerr\<rparr>"

section \<open>The store\<close>

definition pool_at :: "world \<Rightarrow> nat \<Rightarrow> pool option" where
  "pool_at w p = (if p < length (pools w) then Some (pools w ! p) else None)"

definition conn_at :: "world \<Rightarrow> nat \<Rightarrow> conn option" where
  "conn_at w a = (if a < length (heap w) then Some (heap w ! a) else None)"

definition upd_pool :: "nat \<Rightarrow> (pool \<Rightarrow> pool) \<Rightarrow> world \<Rightarrow> world" where
  "upd_pool p f w = w\<lparr>pools := (pools w)[p := f (pools w ! p)]\<rparr>"

definition upd_conn :: "nat \<Rightarrow> (conn \<Rightarrow> conn) \<Rightarrow> world \<Rightarrow> world" where
  "upd_conn a f w = w\<lparr>heap := (heap w)[a := f (heap w ! a)]\<rparr>"

definition alloc_conn :: "conn \<Rightarrow> world \<Rightarrow> nat \<times> world" where
  "alloc_conn c w = (length (heap w), w\<lparr>heap := heap w @ [c]\<rparr>)"

definition alloc_pool :: "pool \<Rightarrow> world \<Rightarrow> nat \<times> world" where
  "alloc_pool P w = (length (pools w), w\<lparr>pools := pools w @ [P]\<rparr>)"

section \<open>Environment: time and physical connections\<close>

definition time_Now :: "world \<Rightarrow> int \<times> world" where
  "time_Now w = (clock w (ticks w), w\<lparr>ticks := Suc (ticks w)\<rparr>)"

definition rawClose :: "rawconn \<Rightarrow> world \<Rightarrow> error option \<times> world" where
  "rawClose r w = (closeErr w r, w\<lparr>closed := closed w @ [r]\<rparr>)"

text \<open>
  The value an \<^verbatim>\<open>int64\<close> computation leaves: the integer taken modulo \<open>2 ^ 64\<close> into
  the range from \<open>- (2 ^ 63)\<close> up to \<open>2 ^ 63 - 1\<close>. Negating a \<^verbatim>\<open>time.Duration\<close> wraps
  so, and so does \<^verbatim>\<open>Time.UnixNano\<close> of an instant outside the years 1678 to 2262.
\<close>

definition int64 :: "int \<Rightarrow> int" where
  "int64 x = (x + 9223372036854775808) mod 18446744073709551616 - 9223372036854775808"

section \<open>Counters and statistics\<close>

definition inc :: "int \<Rightarrow> int" where
  "inc v = v + 1"

definition dec :: "int \<Rightarrow> int" where
  "dec v = v + (- 1)"

definition val :: "int \<Rightarrow> int" where
  "val v = v"

definition newStats :: stats where
  "newStats = \<lparr>size_c = 0, request = 0, success = 0\<rparr>"

definition size_inc :: "nat \<Rightarrow> world \<Rightarrow> world" where
  "size_inc p = upd_pool p (\<lambda>P. P\<lparr>stats := (stats P)\<lparr>size_c := inc (size_c (stats P))\<rparr>\<rparr>)"

definition size_dec :: "nat \<Rightarrow> world \<Rightarrow> world" where
  "size_dec p = upd_pool p (\<lambda>P. P\<lparr>stats := (stats P)\<lparr>size_c := dec (size_c (stats P))\<rparr>\<rparr>)"

definition request_inc :: "nat \<Rightarrow> world \<Rightarrow> world" where
  "request_inc p = upd_pool p (\<lambda>P. P\<lparr>stats := (stats P)\<lparr>request := inc (request (stats P))\<rparr>\<rparr>)"

definition success_inc :: "nat \<Rightarrow> world \<Rightarrow> world" where
  "success_inc p = upd_pool p (\<lambda>P. P\<lparr>stats := (stats P)\<lparr>success := inc (success (stats P))\<rparr>\<rparr>)"

text \<open>\<^verbatim>\<open>stats.reset\<close>: the three counters are swapped to zero.\<close>

definition stats_reset :: "nat \<Rightarrow> world \<Rightarrow> world" where
  "stats_reset p = upd_pool p (\<lambda>P. P\<lparr>stats := \<lparr>size_c = 0, request = 0, success = 0\<rparr>\<rparr>)"

text \<open>\<^verbatim>\<open>pool.available\<close> is \<^verbatim>\<open>len(p.conns)\<close>, which is 0 for the nil channel.\<close>

definition available :: "pool \<Rightarrow> int" where
  "available P = (case conns P of None \<Rightarrow> 0 | Some ch \<Rightarrow> int (length (buf ch)))"

definition Available :: "pool \<Rightarrow> int" where
  "Available P = available P"

definition Request :: "pool \<Rightarrow> int" where
  "Request P = val (request (stats P))"

definition Success :: "pool \<Rightarrow> int" where
  "Success P = val (success (stats P))"

definition Active :: "pool \<Rightarrow> int" where
  "Active P = val (size_c (stats P)) - available P"

section \<open>Channel operations\<close>

text \<open>
  A send that can proceed appends to the buffer. It cannot proceed on the nil channel or
  on a full buffer: \<open>None\<close>. A blocking send then never returns; inside a \<^verbatim>\<open>select\<close>
  with a \<^verbatim>\<open>default\<close> branch the default is taken.
\<close>

definition chan_send :: "nat \<Rightarrow> nat \<Rightarrow> world \<Rightarrow> world option" where
  "chan_send p a w =
     (case pool_at w p of None \<Rightarrow> None
      | Some P \<Rightarrow>
          (case conns P of None \<Rightarrow> None
           | Some ch \<Rightarrow>
               if length (buf ch) < cap ch
               then Some (upd_pool p (\<lambda>P. P\<lparr>conns := Some (ch\<lparr>buf := buf ch @ [a]\<rparr>)\<rparr>) w)
               else None))"

definition chan_recv :: "nat \<Rightarrow> world \<Rightarrow> (nat \<times> world) option" where
  "chan_recv p w =
     (case pool_at w p of None \<Rightarrow> None
      | Some P \<Rightarrow>
          (case conns P of None \<Rightarrow> None
           | Some ch \<Rightarrow>
               (case buf ch of [] \<Rightarrow> None
                | a # rest \<Rightarrow>
                    Some (a, upd_pool p (\<lambda>P. P\<lparr>conns := Some (ch\<lparr>buf := rest\<rparr>)\<rparr>) w))))"

section \<open>Configuration\<close>

definition validate :: "Config \<Rightarrow> error option" where
  "validate c =
     (if MinSize c < 0 \<or> MaxSize c \<le> 0 \<or> MinSize c > MaxSize c
      then Some (Errorf ''invalid configuration, please check min and max values'')
      else if Increment c > MaxSize c - MinSize c
      then Some (Errorf ''increment value can be the difference between min, max at most'')
      else None)"

section \<open>Wrappers\<close>

definition newConn :: "rawconn option \<Rightarrow> nat \<Rightarrow> conn" where
  "newConn c p = \<lparr>lastUsed = 0, conn_p = p, unUsable = False, Conn = c\<rparr>"

definition markUnusable :: "nat \<Rightarrow> world \<Rightarrow> world" where
  "markUnusable a = upd_conn a (\<lambda>c. c\<lparr>unUsable := True\<rparr>)"

definition isUnUsable :: "conn \<Rightarrow> bool" where
  "isUnUsable c = unUsable c"

section \<open>Growth\<close>

definition factory_called :: "nat \<Rightarrow> world \<Rightarrow> world" where
  "factory_called p = upd_pool p (\<lambda>P. P\<lparr>factoryCalls := Suc (factoryCalls P)\<rparr>)"

text \<open>
  The loop of \<^verbatim>\<open>addConnections\<close>, by the number of iterations left. The send on the
  channel is a blocking one.
\<close>

fun addConnections_loop :: "nat \<Rightarrow> nat \<Rightarrow> world \<Rightarrow> fatal + (error option \<times> world)" where
  "addConnections_loop 0 p w = Inr (None, w)"
| "addConnections_loop (Suc k) p w =
     (case pool_at w p of None \<Rightarrow> Inl Panic
      | Some P \<Rightarrow>
          if MaxSize (cfg P) \<le> val (size_c (stats P)) then Inr (None, w)
          else
            (case factory P (factoryCalls P) of
               Inl err \<Rightarrow> Inr (Some err, factory_called p w)
             | Inr c \<Rightarrow>
                 (case alloc_conn (newConn c p) (factory_called p w) of
                    (a, w1) \<Rightarrow>
                      (case chan_send p a w1 of
                         None \<Rightarrow> Inl Deadlock
                       | Some w2 \<Rightarrow> addConnections_loop k p (size_inc p w2)))))"

definition addConnections :: "nat \<Rightarrow> int \<Rightarrow> world \<Rightarrow> fatal + (error option \<times> world)" where
  "addConnections p sz w = addConnections_loop (nat sz) p w"

section \<open>Retrieval\<close>

text \<open>
  \<^verbatim>\<open>get\<close> and \<^verbatim>\<open>tryGet\<close> call each other without a bound in the source, so the model
  carries fuel: one unit per call, \<open>None\<close> when it runs out. The deferred
  \<^verbatim>\<open>c.Conn.Close()\<close> of \<^verbatim>\<open>get\<close> runs when the recursive call has returned; its error is
  dropped. Evaluating the deferred method on a nil \<^verbatim>\<open>Conn\<close> panics. The threshold
  \<^verbatim>\<open>time.Now().Add(-p.cfg.IdleTimeout).UTC().UnixNano()\<close> is an \<^verbatim>\<open>int64\<close>: the duration
  is negated as an \<^verbatim>\<open>int64\<close>, added to the instant of the clock reading, and the
  nanoseconds of the result are read as an \<^verbatim>\<open>int64\<close>.
\<close>

type_synonym get_result = "(fatal + ((error + netconn) \<times> world)) option"

definition deferred_Close :: "rawconn \<Rightarrow> get_result \<Rightarrow> get_result" where
  "deferred_Close r res =
     (case res of
        Some (Inr (x, w)) \<Rightarrow> Some (Inr (x, snd (rawClose r w)))
      | other \<Rightarrow> other)"

fun get :: "nat \<Rightarrow> nat \<Rightarrow> world \<Rightarrow> get_result"
  and tryGet :: "nat \<Rightarrow> nat \<Rightarrow> world \<Rightarrow> get_result" where
  "get 0 p w = None"
| "get (Suc n) p w =
     (case chan_recv p w of
        Some (a, w1) \<Rightarrow>
          (case conn_at w1 a of None \<Rightarrow> Some (Inl Panic)
           | Some c \<Rightarrow>
               if 0 < lastUsed c then
                 (case pool_at w1 p of None \<Rightarrow> Some (Inl Panic)
                  | Some P \<Rightarrow>
                      (case time_Now w1 of
                         (now, w2) \<Rightarrow>
                           if lastUsed c < int64 (now + int64 (- IdleTimeout (cfg P))) then
                             (case Conn c of None \<Rightarrow> Some (Inl Panic)
                              | Some r \<Rightarrow> deferred_Close r (get n p (size_dec p w2)))
                           else Some (Inr (Inr (Wrapper a), w2))))
               else Some (Inr (Inr (Wrapper a), w1)))
      | None \<Rightarrow> tryGet n p w)"
| "tryGet 0 p w = None"
| "tryGet (Suc n) p w =
     (case pool_at w p of None \<Rightarrow> Some (Inl Panic)
      | Some P \<Rightarrow>
          if val (size_c (stats P)) < MaxSize (cfg P) then
            (case addConnections p
                    (if Increment (cfg P) + val (size_c (stats P)) > MaxSize (cfg P)
                     then MaxSize (cfg P) - val (size_c (stats P))
                     else Increment (cfg P)) w of
               Inl f \<Rightarrow> Some (Inl f)
             | Inr (Some err, w1) \<Rightarrow> Some (Inr (Inl err, w1))
             | Inr (None, w1) \<Rightarrow> get n p w1)
          else Some (Inr (Inl (Errorf ''could not retrieve any connection''), w)))"

text \<open>The deferred \<^verbatim>\<open>updateStat\<close> of \<^verbatim>\<open>Get\<close>, applied to what the body returned.\<close>

definition updateStat :: "nat \<Rightarrow> get_result \<Rightarrow> get_result" where
  "updateStat p res =
     (case res of
        Some (Inr (Inl err, w)) \<Rightarrow> Some (Inr (Inl err, request_inc p w))
      | Some (Inr (Inr c, w)) \<Rightarrow> Some (Inr (Inr c, success_inc p (request_inc p w)))
      | other \<Rightarrow> other)"

definition Get :: "nat \<Rightarrow> nat \<Rightarrow> world \<Rightarrow> get_result" where
  "Get fuel p w =
     (case pool_at w p of None \<Rightarrow> Some (Inl Panic)
      | Some P \<Rightarrow>
          updateStat p
            (if conns P = None \<or> running P = 0 then Some (Inr (Inl ErrClosed, w))
             else get fuel p w))"

section \<open>Release\<close>

definition put :: "nat \<Rightarrow> nat \<Rightarrow> world \<Rightarrow> fatal + (error option \<times> world)" where
  "put p a w =
     (case conn_at w a of None \<Rightarrow> Inl Panic
      | Some c \<Rightarrow>
          if isUnUsable c then
            (case Conn c of None \<Rightarrow> Inl Panic | Some r \<Rightarrow> Inr (rawClose r w))
          else
            (case pool_at w p of None \<Rightarrow> Inl Panic
             | Some P \<Rightarrow>
                 (case chan_send p a w of
                    Some w1 \<Rightarrow>
                      (case time_Now w1 of
                         (now, w2) \<Rightarrow> Inr (None, upd_conn a (\<lambda>c. c\<lparr>lastUsed := now\<rparr>) w2))
                  | None \<Rightarrow>
                      (case Conn c of None \<Rightarrow> Inl Panic
                       | Some r \<Rightarrow> Inr (rawClose r (size_dec p w))))))"

text \<open>The method \<^verbatim>\<open>Close\<close> of a wrapper.\<close>

definition conn_Close :: "nat \<Rightarrow> world \<Rightarrow> fatal + (error option \<times> world)" where
  "conn_Close a w =
     (case conn_at w a of None \<Rightarrow> Inl Panic
      | Some c \<Rightarrow>
          if Conn c = None then Inr (Some (Errorf ''invalid conn, it is nil''), w)
          else put (conn_p c) a w)"

section \<open>Invalidation\<close>

text \<open>The type assertion \<^verbatim>\<open>c.(*conn)\<close> succeeds on every wrapper and on nothing else.\<close>

definition MarkUnusable :: "nat \<Rightarrow> netconn \<Rightarrow> world \<Rightarrow> fatal + world" where
  "MarkUnusable p c w =
     (case c of
        Wrapper a \<Rightarrow>
          (case conn_at w a of None \<Rightarrow> Inl Panic
           | Some _ \<Rightarrow>
               (case pool_at w p of None \<Rightarrow> Inl Panic
                | Some _ \<Rightarrow> Inr (size_dec p (markUnusable a w))))
      | _ \<Rightarrow> Inr w)"

section \<open>Shutdown\<close>

fun strings_Join :: "string list \<Rightarrow> string \<Rightarrow> string" where
  "strings_Join [] sep = []"
| "strings_Join [s] sep = s"
| "strings_Join (s # t # ss) sep = s @ sep @ strings_Join (t # ss) sep"

text \<open>The \<^verbatim>\<open>range\<close> loop of \<^verbatim>\<open>Stop\<close> over the closed channel.\<close>

fun drain :: "nat list \<Rightarrow> string list \<Rightarrow> world \<Rightarrow> fatal + (string list \<times> world)" where
  "drain [] errMsgs w = Inr (errMsgs, w)"
| "drain (a # rest) errMsgs w =
     (case conn_at w a of None \<Rightarrow> Inl Panic
      | Some c \<Rightarrow>
          (case Conn c of None \<Rightarrow> drain rest errMsgs w
           | Some r \<Rightarrow>
               (case rawClose r w of
                  (None, w1) \<Rightarrow> drain rest errMsgs w1
                | (Some err, w1) \<Rightarrow>
                    drain rest (errMsgs @ [''error: '' @ error_msg err]) w1)))"

text \<open>
  \<^verbatim>\<open>Stop\<close>. Closing the nil channel panics. The channel is closed, drained and replaced
  by nil within this one call, so no other operation meets a closed channel. The joined
  messages are taken to hold no format verbs.
\<close>

definition Stop :: "nat \<Rightarrow> world \<Rightarrow> fatal + (error option \<times> world)" where
  "Stop p w =
     (case pool_at w p of None \<Rightarrow> Inl Panic
      | Some P \<Rightarrow>
          if running P = 1 then
            (case conns P of None \<Rightarrow> Inl Panic
             | Some ch \<Rightarrow>
                 (case drain (buf ch) []
                         (stats_reset p (upd_pool p (\<lambda>P. P\<lparr>running := 0\<rparr>) w)) of
                    Inl f \<Rightarrow> Inl f
                  | Inr (errMsgs, w1) \<Rightarrow>
                      if 0 < length errMsgs
                      then Inr (Some (Errorf (strings_Join errMsgs [CHR 0x0A])),
                                upd_pool p (\<lambda>P. P\<lparr>conns := None\<rparr>) w1)
                      else Inr (None, upd_pool p (\<lambda>P. P\<lparr>conns := None\<rparr>) w1)))
          else Inr (None, w))"

section \<open>Construction\<close>

datatype Option = WithName string

fun apply_Option :: "Option \<Rightarrow> pool \<Rightarrow> pool" where
  "apply_Option (WithName s) P = P\<lparr>name := s\<rparr>"

fun digits :: "nat \<Rightarrow> string" where
  "digits n =
     (if n < 10 then [char_of (48 + n)]
      else digits (n div 10) @ [char_of (48 + n mod 10)])"

definition itoa :: "int \<Rightarrow> string" where
  "itoa i = (if i < 0 then CHR ''-'' # digits (nat (- i)) else digits (nat i))"

definition start :: "nat \<Rightarrow> world \<Rightarrow> fatal + (error option \<times> world)" where
  "start p w =
     (case pool_at w p of None \<Rightarrow> Inl Panic
      | Some P \<Rightarrow>
          if running P = 0
          then addConnections p (MinSize (cfg P)) (upd_pool p (\<lambda>P. P\<lparr>running := 1\<rparr>) w)
          else Inr (None, w))"

text \<open>
  \<^verbatim>\<open>New\<close>. The branch on the error of \<^verbatim>\<open>p.start()\<close> has an empty body in the source, so
  both outcomes of \<^verbatim>\<open>start\<close> continue to \<^verbatim>\<open>return p, nil\<close>.
\<close>

definition New ::
  "Config \<Rightarrow> Factory option \<Rightarrow> Option list \<Rightarrow> world \<Rightarrow> fatal + ((error + nat) \<times> world)" where
  "New c fo options w =
     (case fo of
        None \<Rightarrow> Inr (Inl (Errorf ''no connection factory provided''), w)
      | Some f \<Rightarrow>
          (case validate c of
             Some err \<Rightarrow> Inr (Inl err, w)
           | None \<Rightarrow>
               (case alloc_pool
                       (fold apply_Option options
                          \<lparr>name = [], cfg = c, factory = f,
                           conns = Some \<lparr>buf = [], cap = nat (MaxSize c)\<rparr>,
                           running = 0, stats = newStats, factoryCalls = 0\<rparr>) w of
                  (p, w1) \<Rightarrow>
                    (case start p
                            (case pool_at w1 p of
                               None \<Rightarrow> w1
                             | Some P \<Rightarrow>
                                 if name P = []
                                 then upd_pool p
                                        (\<lambda>P. P\<lparr>name := ''conn-pool'' @ ''-'' @
                                                 itoa (inc (connPoolCounter w1))\<rparr>)
                                        (w1\<lparr>connPoolCounter := inc (connPoolCounter w1)\<rparr>)
                                 else w1) of
                       Inl f \<Rightarrow> Inl f
                     | Inr (Some err, w2) \<Rightarrow> Inr (Inr p, w2)
                     | Inr (None, w2) \<Rightarrow> Inr (Inr p, w2)))))"

section \<open>Sequences of public calls\<close>

datatype call =
    CallNew Config "Factory option" "Option list"
  | CallGet nat nat                 \<comment> \<open>fuel, pool\<close>
  | CallClose nat                   \<comment> \<open>\<^verbatim>\<open>Close\<close> on the wrapper at this address\<close>
  | CallMarkUnusable nat netconn
  | CallStop nat

text \<open>The world after a call that returns; \<open>None\<close> when it does not return.\<close>

fun exec :: "call \<Rightarrow> world \<Rightarrow> world option" where
  "exec (CallNew c fo options) w =
     (case New c fo options w of Inr (_, w') \<Rightarrow> Some w' | Inl _ \<Rightarrow> None)"
| "exec (CallGet fuel p) w =
     (case Get fuel p w of Some (Inr (_, w')) \<Rightarrow> Some w' | _ \<Rightarrow> None)"
| "exec (CallClose a) w =
     (case conn_Close a w of Inr (_, w') \<Rightarrow> Some w' | Inl _ \<Rightarrow> None)"
| "exec (CallMarkUnusable p c) w =
     (case MarkUnusable p c w of Inr w' \<Rightarrow> Some w' | Inl _ \<Rightarrow> None)"
| "exec (CallStop p) w =
     (case Stop p w of Inr (_, w') \<Rightarrow> Some w' | Inl _ \<Rightarrow> None)"

fun run :: "call list \<Rightarrow> world \<Rightarrow> world option" where
  "run [] w = Some w"
| "run (c # cs) w = (case exec c w of None \<Rightarrow> None | Some w' \<Rightarrow> run cs w')"

section \<open>Atomic steps\<close>

text \<open>
  Every operation of the pool is a sequence of the following atomic changes of the
  world, each listed with what the code has checked before it makes the change.
\<close>

inductive prim :: "world \<Rightarrow> world \<Rightarrow> bool" where
  p_size_dec: "prim w (size_dec p w)"
| p_size_inc: "pool_at w p = Some P \<Longrightarrow> size_c (stats P) < MaxSize (cfg P) \<Longrightarrow>
     prim w (size_inc p w)"
| p_request_inc: "prim w (request_inc p w)"
| p_success_inc: "prim w (success_inc p w)"
| p_stats_reset: "prim w (stats_reset p w)"
| p_stopped: "prim w (upd_pool p (\<lambda>P. P\<lparr>running := 0\<rparr>) w)"
| p_nil_chan: "prim w (upd_pool p (\<lambda>P. P\<lparr>conns := None\<rparr>) w)"
| p_factory: "prim w (factory_called p w)"
| p_recv: "chan_recv p w = Some (a, w1) \<Longrightarrow> prim w w1"
| p_send: "conn_at w a = Some c \<Longrightarrow> \<not> unUsable c \<Longrightarrow> chan_send p a w = Some w1 \<Longrightarrow>
     prim w w1"
| p_alloc: "prim w (snd (alloc_conn (newConn rc p) w))"
| p_time: "prim w (snd (time_Now w))"
| p_rawClose: "prim w (snd (rawClose r w))"
| p_stamp: "prim w (upd_conn a (\<lambda>c. c\<lparr>lastUsed := t\<rparr>) w)"
| p_mark: "prim w (markUnusable a w)"
| p_new_pool: "validate cf = None \<Longrightarrow>
     prim w (w\<lparr>connPoolCounter := k,
               pools := pools w @
                [\<lparr>name = nm, cfg = cf, factory = f,
                  conns = Some \<lparr>buf = [], cap = nat (MaxSize cf)\<rparr>,
                  running = 1, stats = newStats, factoryCalls = 0\<rparr>]\<rparr>)"

definition closedUnder :: "(world \<Rightarrow> bool) \<Rightarrow> bool" where
  "closedUnder Q \<longleftrightarrow> (\<forall>w w'. prim w w' \<longrightarrow> Q w \<longrightarrow> Q w')"


text \<open>A freshly built pool, as \<^verbatim>\<open>New\<close> hands it to \<^verbatim>\<open>addConnections\<close>.\<close>

definition fresh_pool :: "string \<Rightarrow> Config \<Rightarrow> Factory \<Rightarrow> pool" where
  "fresh_pool nm c f =
     \<lparr>name = nm, cfg = c, factory = f,
      conns = Some \<lparr>buf = [], cap = nat (MaxSize c)\<rparr>,
      running = 1, stats = newStats, factoryCalls = 0\<rparr>"


section \<open>State predicates\<close>


definition counters_nonneg :: "world \<Rightarrow> bool" where
  "counters_nonneg w \<longleftrightarrow>
     (\<forall>p P. pool_at w p = Some P \<longrightarrow> 0 \<le> request (stats P) \<and> 0 \<le> success (stats P))"

definition marked :: "nat \<Rightarrow> world \<Rightarrow> bool" where
  "marked a w \<longleftrightarrow> (case conn_at w a of None \<Rightarrow> False | Some c \<Rightarrow> unUsable c)"

text \<open>The addresses held in the idle buffers, and those of them marked unusable.\<close>

definition idle_of :: "pool \<Rightarrow> nat list" where
  "idle_of P = (case conns P of None \<Rightarrow> [] | Some ch \<Rightarrow> buf ch)"

definition idle_addrs :: "world \<Rightarrow> nat list" where
  "idle_addrs w = concat (map idle_of (pools w))"

definition idle_marked :: "world \<Rightarrow> nat list" where
  "idle_marked w = filter (\<lambda>a. marked a w) (idle_addrs w)"

definition marked_out :: "nat \<Rightarrow> world \<Rightarrow> bool" where
  "marked_out a w \<longleftrightarrow> marked a w \<and> a \<notin> set (idle_addrs w)"

definition stopped :: "nat \<Rightarrow> world \<Rightarrow> bool" where
  "stopped p w \<longleftrightarrow>
     (case pool_at w p of None \<Rightarrow> False | Some P \<Rightarrow> running P = 0 \<and> conns P = None)"


section \<open>Concrete inputs\<close>

text \<open>A clock, physical connections that close without error, factories and
  configurations, used to run the operations on concrete inputs.\<close>

definition clock0 :: "nat \<Rightarrow> int" where
  "clock0 k = 1000 + int k"

definition noCloseErr :: "rawconn \<Rightarrow> error option" where
  "noCloseErr r = None"

definition world0 :: world where
  "world0 = init_world clock0 noCloseErr"

definition factory_ok :: Factory where
  "factory_ok k = Inr (Some k)"

definition factory_fail :: Factory where
  "factory_fail k = Inl (External ''dial failed'')"

definition cfg1 :: Config where
  "cfg1 = \<lparr>MinSize = 1, MaxSize = 10, Increment = 1, IdleTimeout = 600\<rparr>"

definition cfg_no_increment :: Config where
  "cfg_no_increment = \<lparr>MinSize = 0, MaxSize = 1, Increment = 0, IdleTimeout = 600\<rparr>"

definition cfg_no_timeout :: Config where
  "cfg_no_timeout = \<lparr>MinSize = 1, MaxSize = 10, Increment = 1, IdleTimeout = 0\<rparr>"

text \<open>The factory of the repository's tests: it returns a nil connection and no error.\<close>

definition factory_nil :: Factory where
  "factory_nil k = Inr None"

text \<open>
  A configuration whose idle timeout is the most negative duration but one, a pool of
  capacity 1 with no idle timeout, and a clock that reads a time before 1970.
\<close>

definition cfg_negative_timeout :: Config where
  "cfg_negative_timeout =
     \<lparr>MinSize = 1, MaxSize = 10, Increment = 1, IdleTimeout = - 9223372036854775807\<rparr>"

definition cfg_single_no_timeout :: Config where
  "cfg_single_no_timeout = \<lparr>MinSize = 1, MaxSize = 1, Increment = 0, IdleTimeout = 0\<rparr>"

definition clock_before_epoch :: "nat \<Rightarrow> int" where
  "clock_before_epoch k = - 1000 + int k"

definition world_before_epoch :: world where
  "world_before_epoch = init_world clock_before_epoch noCloseErr"

definition cfg_single :: Config where
  "cfg_single = \<lparr>MinSize = 1, MaxSize = 1, Increment = 0, IdleTimeout = 600\<rparr>"

section \<open>Frame lemmas for the store\<close>


lemma pool_at_upd_pool [simp]:
  "pool_at (upd_pool p f w) q = (if q = p then map_option f (pool_at w p) else pool_at w q)"
  by (simp add: pool_at_def upd_pool_def)

lemma conn_at_upd_pool [simp]: "conn_at (upd_pool p f w) a = conn_at w a"
  by (simp add: conn_at_def upd_pool_def)

lemma pool_at_upd_conn [simp]: "pool_at (upd_conn a f w) q = pool_at w q"
  by (simp add: pool_at_def upd_conn_def)

lemma conn_at_upd_conn [simp]:
  "conn_at (upd_conn a f w) b = (if b = a then map_option f (conn_at w a) else conn_at w b)"
  by (simp add: conn_at_def upd_conn_def)

lemma pool_at_time_Now [simp]: "pool_at (snd (time_Now w)) q = pool_at w q"
  by (simp add: pool_at_def time_Now_def)

lemma conn_at_time_Now [simp]: "conn_at (snd (time_Now w)) a = conn_at w a"
  by (simp add: conn_at_def time_Now_def)

lemma pool_at_rawClose [simp]: "pool_at (snd (rawClose r w)) q = pool_at w q"
  by (simp add: pool_at_def rawClose_def)

lemma conn_at_rawClose [simp]: "conn_at (snd (rawClose r w)) a = conn_at w a"
  by (simp add: conn_at_def rawClose_def)

lemma pool_at_alloc_conn [simp]: "pool_at (snd (alloc_conn c w)) q = pool_at w q"
  by (simp add: pool_at_def alloc_conn_def)

lemma conn_at_alloc_conn [simp]:
  "conn_at (snd (alloc_conn c w)) b =
     (if b = fst (alloc_conn c w) then Some c else conn_at w b)"
  by (auto simp: conn_at_def alloc_conn_def nth_append)

lemma chan_send_SomeD:
  assumes "chan_send p a w = Some w1"
  shows "\<exists>P ch. pool_at w p = Some P \<and> conns P = Some ch \<and> length (buf ch) < cap ch \<and>
           w1 = upd_pool p (\<lambda>P. P\<lparr>conns := Some (ch\<lparr>buf := buf ch @ [a]\<rparr>)\<rparr>) w"
  using assms by (auto simp: chan_send_def split: option.splits if_splits)

lemma chan_recv_SomeD:
  assumes "chan_recv p w = Some (a, w1)"
  shows "\<exists>P ch rest. pool_at w p = Some P \<and> conns P = Some ch \<and> buf ch = a # rest \<and>
           w1 = upd_pool p (\<lambda>P. P\<lparr>conns := Some (ch\<lparr>buf := rest\<rparr>)\<rparr>) w"
  using assms by (auto simp: chan_recv_def split: option.splits list.splits)


section \<open>Predicates kept by every operation\<close>

lemma closedD: "closedUnder Q \<Longrightarrow> Q w \<Longrightarrow> prim w w' \<Longrightarrow> Q w'"
  unfolding closedUnder_def by blast

lemma addConnections_loop_closed:
  assumes cl: "closedUnder Q"
  shows "Q w \<Longrightarrow> addConnections_loop k p w = Inr (e, w') \<Longrightarrow> Q w'"
proof (induction k arbitrary: w)
  case 0
  then show ?case by simp
next
  case (Suc k)
  from Suc.prems(2) obtain P where P: "pool_at w p = Some P"
    by (cases "pool_at w p") simp_all
  show ?case
  proof (cases "MaxSize (cfg P) \<le> size_c (stats P)")
    case True
    with Suc.prems P show ?thesis by (simp add: val_def)
  next
    case room: False
    show ?thesis
    proof (cases "factory P (factoryCalls P)")
      case (Inl err)
      with Suc.prems(2) P room have "w' = factory_called p w"
        by (simp add: val_def)
      then show ?thesis
        using closedD[OF cl Suc.prems(1) p_factory] by simp
    next
      case (Inr c)
      let ?w0 = "factory_called p w"
      let ?a = "fst (alloc_conn (newConn c p) ?w0)"
      let ?w1 = "snd (alloc_conn (newConn c p) ?w0)"
      from Suc.prems(2) P room Inr
      have "(case chan_send p ?a ?w1 of None \<Rightarrow> Inl Deadlock
             | Some w2 \<Rightarrow> addConnections_loop k p (size_inc p w2)) = Inr (e, w')"
        by (simp add: val_def case_prod_beta)
      then obtain w2 where
        send: "chan_send p ?a ?w1 = Some w2" and
        rest: "addConnections_loop k p (size_inc p w2) = Inr (e, w')"
        by (cases "chan_send p ?a ?w1") simp_all
      have q0: "Q ?w0" using closedD[OF cl Suc.prems(1) p_factory] .
      have q1: "Q ?w1" using closedD[OF cl q0 p_alloc] .
      have "conn_at ?w1 ?a = Some (newConn c p)" by simp
      moreover have "\<not> unUsable (newConn c p)" by (simp add: newConn_def)
      ultimately have q2: "Q w2"
        using closedD[OF cl q1 p_send] send by blast
      from chan_send_SomeD[OF send] obtain P1 ch where
        "pool_at ?w1 p = Some P1" and
        w2: "w2 = upd_pool p (\<lambda>P. P\<lparr>conns := Some (ch\<lparr>buf := buf ch @ [?a]\<rparr>)\<rparr>) ?w1"
        by blast
      with P room
      have "pool_at w2 p = Some (P\<lparr>factoryCalls := Suc (factoryCalls P),
               conns := Some (ch\<lparr>buf := buf ch @ [?a]\<rparr>)\<rparr>)"
        by (simp add: factory_called_def)
      with room have "Q (size_inc p w2)"
        using closedD[OF cl q2 p_size_inc] by simp
      then show ?thesis using Suc.IH rest by blast
    qed
  qed
qed

lemma deferred_Close_InrD:
  assumes "deferred_Close r res = Some (Inr (x, w'))"
  shows "\<exists>w''. res = Some (Inr (x, w'')) \<and> w' = snd (rawClose r w'')"
  using assms by (auto simp: deferred_Close_def split: option.splits sum.splits)

lemma updateStat_InrD:
  assumes "updateStat p res = Some (Inr (x, w'))"
  shows "\<exists>w''. res = Some (Inr (x, w'')) \<and>
           w' = (case x of Inl _ \<Rightarrow> request_inc p w''
                 | Inr _ \<Rightarrow> success_inc p (request_inc p w''))"
  using assms by (auto simp: updateStat_def split: option.splits sum.splits)

lemma get_Suc_recv:
  assumes "chan_recv p w = Some (a, w1)" "conn_at w1 a = Some c"
  shows "get (Suc n) p w =
     (if 0 < lastUsed c then
        (case pool_at w1 p of None \<Rightarrow> Some (Inl Panic)
         | Some P \<Rightarrow>
             if lastUsed c < int64 (fst (time_Now w1) + int64 (- IdleTimeout (cfg P))) then
               (case Conn c of None \<Rightarrow> Some (Inl Panic)
                | Some r \<Rightarrow> deferred_Close r (get n p (size_dec p (snd (time_Now w1)))))
             else Some (Inr (Inr (Wrapper a), snd (time_Now w1))))
      else Some (Inr (Inr (Wrapper a), w1)))"
  using assms by (auto simp: case_prod_beta split: option.splits)

lemma get_Suc_empty:
  assumes "chan_recv p w = None"
  shows "get (Suc n) p w = tryGet n p w"
  using assms by simp

lemma get_closed_step:
  assumes cl: "closedUnder Q"
    and IH0: "\<forall>p w r w'. Q w \<longrightarrow> get n p w = Some (Inr (r, w')) \<longrightarrow> Q w'"
    and IHt0: "\<forall>p w r w'. Q w \<longrightarrow> tryGet n p w = Some (Inr (r, w')) \<longrightarrow> Q w'"
    and q: "Q w" and g: "get (Suc n) p w = Some (Inr (r, w'))"
  shows "Q w'"
proof (cases "chan_recv p w")
  case None
  with g have "tryGet n p w = Some (Inr (r, w'))" by (simp only: get_Suc_empty)
  with IHt0 q show ?thesis by blast
next
  case (Some aw)
  obtain a w1 where aw: "aw = (a, w1)" by (cases aw)
  with Some have rc: "chan_recv p w = Some (a, w1)" by simp
  have q1: "Q w1" using closedD[OF cl q p_recv[OF rc]] .
  show ?thesis
  proof (cases "conn_at w1 a")
    case None
    with g rc show ?thesis by simp
  next
    case (Some c)
    note gs = g[unfolded get_Suc_recv[OF rc Some]]
    show ?thesis
    proof (cases "0 < lastUsed c")
      case False
      with gs q1 show ?thesis by simp
    next
      case old: True
      show ?thesis
      proof (cases "pool_at w1 p")
        case None
        with gs old show ?thesis by simp
      next
        case (Some P)
        have q2: "Q (snd (time_Now w1))" using closedD[OF cl q1 p_time] .
        show ?thesis
        proof (cases "lastUsed c < int64 (fst (time_Now w1) + int64 (- IdleTimeout (cfg P)))")
          case False
          with gs old Some q2 show ?thesis by simp
        next
          case expired: True
          show ?thesis
          proof (cases "Conn c")
            case None
            with gs old Some expired show ?thesis by simp
          next
            case (Some rc')
            with gs old \<open>pool_at w1 p = Some P\<close> expired
            have "deferred_Close rc' (get n p (size_dec p (snd (time_Now w1)))) =
                    Some (Inr (r, w'))" by simp
            from deferred_Close_InrD[OF this] obtain w'' where
              rec: "get n p (size_dec p (snd (time_Now w1))) = Some (Inr (r, w''))" and
              w': "w' = snd (rawClose rc' w'')" by blast
            have "Q (size_dec p (snd (time_Now w1)))"
              using closedD[OF cl q2 p_size_dec] .
            with IH0 rec have "Q w''" by blast
            then show ?thesis unfolding w' by (rule closedD[OF cl _ p_rawClose])
          qed
        qed
      qed
    qed
  qed
qed

lemma tryGet_closed_step:
  assumes cl: "closedUnder Q"
    and IH0: "\<forall>p w r w'. Q w \<longrightarrow> get n p w = Some (Inr (r, w')) \<longrightarrow> Q w'"
    and q: "Q w" and g: "tryGet (Suc n) p w = Some (Inr (r, w'))"
  shows "Q w'"
proof (cases "pool_at w p")
  case None
  with g show ?thesis by simp
next
  case (Some P)
  show ?thesis
  proof (cases "val (size_c (stats P)) < MaxSize (cfg P)")
    case False
    with g Some q show ?thesis by simp
  next
    case True
    let ?n = "if Increment (cfg P) + val (size_c (stats P)) > MaxSize (cfg P)
                     then MaxSize (cfg P) - val (size_c (stats P))
                     else Increment (cfg P)"
    show ?thesis
    proof (cases "addConnections p ?n w")
      case (Inl f)
      with g Some True show ?thesis by simp
    next
      case (Inr ew)
      obtain e w1 where ew: "ew = (e, w1)" by (cases ew)
      with Inr have ac: "addConnections_loop (nat ?n) p w = Inr (e, w1)"
        by (simp add: addConnections_def)
      have q1: "Q w1" using addConnections_loop_closed[OF cl q ac] .
      show ?thesis
      proof (cases e)
        case None
        with g Some True Inr ew have "get n p w1 = Some (Inr (r, w'))" by simp
        with IH0 q1 show ?thesis by blast
      next
        case (Some err)
        with g \<open>pool_at w p = Some P\<close> True Inr ew q1 show ?thesis by simp
      qed
    qed
  qed
qed

lemma get_tryGet_closed:
  assumes cl: "closedUnder Q"
  shows "(\<forall>p w r w'. Q w \<longrightarrow> get n p w = Some (Inr (r, w')) \<longrightarrow> Q w') \<and>
         (\<forall>p w r w'. Q w \<longrightarrow> tryGet n p w = Some (Inr (r, w')) \<longrightarrow> Q w')"
proof (induction n)
  case 0
  show ?case by simp
next
  case (Suc n)
  from Suc have IH: "\<forall>p w r w'. Q w \<longrightarrow> get n p w = Some (Inr (r, w')) \<longrightarrow> Q w'"
    by (rule conjunct1)
  from Suc have IHt: "\<forall>p w r w'. Q w \<longrightarrow> tryGet n p w = Some (Inr (r, w')) \<longrightarrow> Q w'"
    by (rule conjunct2)
  show ?case
  proof (intro conjI allI impI)
    fix p w r w'
    assume "Q w" "get (Suc n) p w = Some (Inr (r, w'))"
    then show "Q w'" by (rule get_closed_step[OF cl IH IHt])
  next
    fix p w r w'
    assume "Q w" "tryGet (Suc n) p w = Some (Inr (r, w'))"
    then show "Q w'" by (rule tryGet_closed_step[OF cl IH])
  qed
qed

lemma Get_closed:
  assumes cl: "closedUnder Q" and q: "Q w" and g: "Get fuel p w = Some (Inr (r, w'))"
  shows "Q w'"
proof (cases "pool_at w p")
  case None
  with g show ?thesis by (simp add: Get_def)
next
  case (Some P)
  let ?body = "if conns P = None \<or> running P = 0 then Some (Inr (Inl ErrClosed, w))
             else get fuel p w"
  from g Some have "updateStat p ?body = Some (Inr (r, w'))" by (simp add: Get_def)
  from updateStat_InrD[OF this] obtain w'' where
    body: "?body = Some (Inr (r, w''))" and
    w': "w' = (case r of Inl _ \<Rightarrow> request_inc p w''
                 | Inr _ \<Rightarrow> success_inc p (request_inc p w''))" by blast
  have "Q w''"
  proof (cases "conns P = None \<or> running P = 0")
    case True
    with body q show ?thesis by simp
  next
    case False
    with body have "get fuel p w = Some (Inr (r, w''))" by simp
    with get_tryGet_closed[OF cl, of fuel] q show ?thesis by blast
  qed
  then have q1: "Q (request_inc p w'')" by (rule closedD[OF cl _ p_request_inc])
  then have q2: "Q (success_inc p (request_inc p w''))"
    by (rule closedD[OF cl _ p_success_inc])
  from q1 q2 show ?thesis unfolding w' by (cases r) simp_all
qed

lemma put_closed:
  assumes cl: "closedUnder Q" and q: "Q w" and g: "put p a w = Inr (e, w')"
  shows "Q w'"
proof (cases "conn_at w a")
  case None
  with g show ?thesis by (simp add: put_def)
next
  case (Some c)
  show ?thesis
  proof (cases "unUsable c")
    case True
    with g Some have "\<exists>r. rawClose r w = (e, w')"
      by (cases "Conn c") (auto simp: put_def isUnUsable_def)
    then obtain r where "rawClose r w = (e, w')" ..
    then have "w' = snd (rawClose r w)" by simp
    then show ?thesis using closedD[OF cl q p_rawClose] by simp
  next
    case False
    show ?thesis
    proof (cases "pool_at w p")
      case None
      with g Some False show ?thesis by (simp add: put_def isUnUsable_def)
    next
      case P: (Some P)
      show ?thesis
      proof (cases "chan_send p a w")
        case None
        with g Some False P have "\<exists>r. rawClose r (size_dec p w) = (e, w')"
          by (cases "Conn c") (auto simp: put_def isUnUsable_def)
        then obtain r where "rawClose r (size_dec p w) = (e, w')" ..
        then have w': "w' = snd (rawClose r (size_dec p w))" by simp
        have "Q (size_dec p w)" using closedD[OF cl q p_size_dec] .
        then show ?thesis unfolding w' by (rule closedD[OF cl _ p_rawClose])
      next
        case (Some w1)
        have q1: "Q w1" using closedD[OF cl q p_send[OF \<open>conn_at w a = Some c\<close> False Some]] .
        from g \<open>conn_at w a = Some c\<close> False P Some
        have w': "w' = upd_conn a (\<lambda>c. c\<lparr>lastUsed := fst (time_Now w1)\<rparr>) (snd (time_Now w1))"
          by (simp add: put_def isUnUsable_def case_prod_beta)
        have "Q (snd (time_Now w1))" using closedD[OF cl q1 p_time] .
        then show ?thesis unfolding w' by (rule closedD[OF cl _ p_stamp])
      qed
    qed
  qed
qed

lemma conn_Close_closed:
  assumes cl: "closedUnder Q" and q: "Q w" and g: "conn_Close a w = Inr (e, w')"
  shows "Q w'"
proof (cases "conn_at w a")
  case None
  with g show ?thesis by (simp add: conn_Close_def)
next
  case (Some c)
  show ?thesis
  proof (cases "Conn c = None")
    case True
    with g Some q show ?thesis by (simp add: conn_Close_def)
  next
    case False
    with g Some have "put (conn_p c) a w = Inr (e, w')" by (simp add: conn_Close_def)
    from put_closed[OF cl q this] show ?thesis .
  qed
qed

lemma MarkUnusable_closed:
  assumes cl: "closedUnder Q" and q: "Q w" and g: "MarkUnusable p c w = Inr w'"
  shows "Q w'"
proof (cases c)
  case (Wrapper a)
  with g have w': "w' = size_dec p (markUnusable a w)"
    by (cases "conn_at w a"; cases "pool_at w p") (simp_all add: MarkUnusable_def)
  have "Q (markUnusable a w)" using closedD[OF cl q p_mark] .
  then show ?thesis unfolding w' by (rule closedD[OF cl _ p_size_dec])
next
  case NilConn
  with g q show ?thesis by (simp add: MarkUnusable_def)
next
  case (RawConn x)
  with g q show ?thesis by (simp add: MarkUnusable_def)
qed

lemma drain_closed:
  assumes cl: "closedUnder Q"
  shows "Q w \<Longrightarrow> drain as errMsgs w = Inr (msgs, w') \<Longrightarrow> Q w'"
proof (induction as arbitrary: errMsgs w)
  case Nil
  then show ?case by simp
next
  case (Cons a as)
  from Cons.prems(2) obtain c where c: "conn_at w a = Some c"
    by (cases "conn_at w a") simp_all
  show ?case
  proof (cases "Conn c")
    case None
    with Cons c show ?thesis by simp
  next
    case (Some r)
    have q1: "Q (snd (rawClose r w))" using closedD[OF cl Cons.prems(1) p_rawClose] .
    from Cons.prems(2) c Some
    have "\<exists>em. drain as em (snd (rawClose r w)) = Inr (msgs, w')"
      by (cases "closeErr w r") (auto simp: rawClose_def)
    then obtain em where "drain as em (snd (rawClose r w)) = Inr (msgs, w')" ..
    then show ?thesis by (rule Cons.IH[OF q1])
  qed
qed

lemma Stop_closed:
  assumes cl: "closedUnder Q" and q: "Q w" and g: "Stop p w = Inr (e, w')"
  shows "Q w'"
proof (cases "pool_at w p")
  case None
  with g show ?thesis by (simp add: Stop_def)
next
  case (Some P)
  show ?thesis
  proof (cases "running P = 1")
    case False
    with g Some q show ?thesis by (simp add: Stop_def)
  next
    case True
    let ?w0 = "stats_reset p (upd_pool p (\<lambda>P. P\<lparr>running := 0\<rparr>) w)"
    have "Q (upd_pool p (\<lambda>P. P\<lparr>running := 0\<rparr>) w)" using closedD[OF cl q p_stopped] .
    then have q0: "Q ?w0" by (rule closedD[OF cl _ p_stats_reset])
    from g Some True obtain ch where ch: "conns P = Some ch"
      by (cases "conns P") (simp_all add: Stop_def)
    with g Some True obtain mw where mw: "drain (buf ch) [] ?w0 = Inr mw"
      by (cases "drain (buf ch) [] ?w0") (simp_all add: Stop_def)
    obtain msgs w1 where mw2: "mw = (msgs, w1)" by (cases mw)
    from g Some True ch mw mw2
    have w': "w' = upd_pool p (\<lambda>P. P\<lparr>conns := None\<rparr>) w1"
      by (simp add: Stop_def split: if_splits)
    from drain_closed[OF cl q0 mw[unfolded mw2]] have "Q w1" .
    then show ?thesis unfolding w' by (rule closedD[OF cl _ p_nil_chan])
  qed
qed

lemma fold_apply_Option:
  "fold apply_Option os P = P\<lparr>name := name (fold apply_Option os P)\<rparr>"
proof (induction os arbitrary: P)
  case Nil
  show ?case by simp
next
  case (Cons o1 os)
  obtain s where o1: "o1 = WithName s" by (cases o1)
  have "fold apply_Option (o1 # os) P = fold apply_Option os (P\<lparr>name := s\<rparr>)"
    by (simp add: o1)
  also have "\<dots> = (P\<lparr>name := s\<rparr>)\<lparr>name := name (fold apply_Option os (P\<lparr>name := s\<rparr>))\<rparr>"
    by (rule Cons.IH)
  finally show ?case by (simp add: o1)
qed

lemma New_result_cases:
  "(case x of Inl f \<Rightarrow> Inl f | Inr (Some err, w2) \<Rightarrow> Inr (Inr p, w2)
    | Inr (None, w2) \<Rightarrow> Inr (Inr p, w2)) =
   (case x of Inl f \<Rightarrow> Inl f | Inr (e, w2) \<Rightarrow> Inr (Inr p, w2))"
  by (auto split: sum.splits option.splits prod.splits)

lemma New_unfold:
  assumes "validate c = None"
  shows "\<exists>nm k. New c (Some f) os w =
           (case addConnections_loop (nat (MinSize c)) (length (pools w))
                   (w\<lparr>connPoolCounter := k, pools := pools w @ [fresh_pool nm c f]\<rparr>) of
              Inl x \<Rightarrow> Inl x
            | Inr (e, w2) \<Rightarrow> Inr (Inr (length (pools w)), w2))"
proof -
  let ?P0 = "\<lparr>name = [], cfg = c, factory = f,
               conns = Some \<lparr>buf = [], cap = nat (MaxSize c)\<rparr>,
               running = 0, stats = newStats, factoryCalls = 0\<rparr>"
  let ?p = "length (pools w)"
  have "\<exists>nm. fold apply_Option os ?P0 = ?P0\<lparr>name := nm\<rparr>"
    using fold_apply_Option[of os ?P0] by (rule exI)
  then obtain nm where P1: "fold apply_Option os ?P0 = ?P0\<lparr>name := nm\<rparr>" ..
  let ?w1 = "w\<lparr>pools := pools w @ [?P0\<lparr>name := nm\<rparr>]\<rparr>"
  let ?W = "case pool_at ?w1 ?p of None \<Rightarrow> ?w1
            | Some P \<Rightarrow>
                if name P = []
                then upd_pool ?p
                       (\<lambda>P. P\<lparr>name := ''conn-pool'' @ ''-'' @ itoa (inc (connPoolCounter ?w1))\<rparr>)
                       (?w1\<lparr>connPoolCounter := inc (connPoolCounter ?w1)\<rparr>)
                else ?w1"
  have N: "New c (Some f) os w =
             (case start ?p ?W of Inl x \<Rightarrow> Inl x | Inr (e, w2) \<Rightarrow> Inr (Inr ?p, w2))"
    using assms
    by (simp only: New_def option.case alloc_pool_def prod.case P1 New_result_cases)
  have "\<exists>nm' k. start ?p ?W =
          addConnections_loop (nat (MinSize c)) ?p
            (w\<lparr>connPoolCounter := k, pools := pools w @ [fresh_pool nm' c f]\<rparr>)"
  proof (cases "nm = []")
    case True
    have "start ?p ?W =
          addConnections_loop (nat (MinSize c)) ?p
            (w\<lparr>connPoolCounter := inc (connPoolCounter w),
               pools := pools w @
                 [fresh_pool (''conn-pool'' @ ''-'' @ itoa (inc (connPoolCounter w))) c f]\<rparr>)"
      by (simp add: True start_def pool_at_def upd_pool_def addConnections_def fresh_pool_def)
    then show ?thesis by blast
  next
    case False
    have "start ?p ?W =
          addConnections_loop (nat (MinSize c)) ?p
            (w\<lparr>connPoolCounter := connPoolCounter w,
               pools := pools w @ [fresh_pool nm c f]\<rparr>)"
      by (simp add: False start_def pool_at_def upd_pool_def addConnections_def fresh_pool_def)
    then show ?thesis by blast
  qed
  then obtain nm' k where "start ?p ?W =
          addConnections_loop (nat (MinSize c)) ?p
            (w\<lparr>connPoolCounter := k, pools := pools w @ [fresh_pool nm' c f]\<rparr>)" by blast
  with N show ?thesis by metis
qed

lemma New_closed:
  assumes cl: "closedUnder Q" and q: "Q w" and g: "New c fo os w = Inr (r, w')"
  shows "Q w'"
proof (cases fo)
  case None
  with g q show ?thesis by (simp add: New_def)
next
  case (Some f)
  show ?thesis
  proof (cases "validate c")
    case (Some err)
    with g q \<open>fo = Some f\<close> show ?thesis by (simp add: New_def)
  next
    case None
    from New_unfold[OF None, of f os w] obtain nm k where
      N: "New c (Some f) os w =
           (case addConnections_loop (nat (MinSize c)) (length (pools w))
                   (w\<lparr>connPoolCounter := k, pools := pools w @ [fresh_pool nm c f]\<rparr>) of
              Inl x \<Rightarrow> Inl x
            | Inr (e, w2) \<Rightarrow> Inr (Inr (length (pools w)), w2))" by blast
    let ?w0 = "w\<lparr>connPoolCounter := k, pools := pools w @ [fresh_pool nm c f]\<rparr>"
    have q0: "Q ?w0"
      unfolding fresh_pool_def by (rule closedD[OF cl q p_new_pool[OF None]])
    from g N \<open>fo = Some f\<close> obtain e where
      "addConnections_loop (nat (MinSize c)) (length (pools w)) ?w0 = Inr (e, w')"
      by (cases "addConnections_loop (nat (MinSize c)) (length (pools w)) ?w0") auto
    from addConnections_loop_closed[OF cl q0 this] show ?thesis .
  qed
qed

lemma exec_closed:
  assumes cl: "closedUnder Q" and q: "Q w" and g: "exec c w = Some w'"
  shows "Q w'"
proof (cases c)
  case (CallNew cf fo os)
  with g obtain r where "New cf fo os w = Inr (r, w')"
    by (cases "New cf fo os w") auto
  from New_closed[OF cl q this] show ?thesis .
next
  case (CallGet fuel p)
  with g obtain r where "Get fuel p w = Some (Inr (r, w'))"
    by (cases "Get fuel p w") (auto split: sum.splits)
  from Get_closed[OF cl q this] show ?thesis .
next
  case (CallClose a)
  with g obtain r where "conn_Close a w = Inr (r, w')"
    by (cases "conn_Close a w") auto
  from conn_Close_closed[OF cl q this] show ?thesis .
next
  case (CallMarkUnusable p x)
  with g have "MarkUnusable p x w = Inr w'"
    by (cases "MarkUnusable p x w") auto
  from MarkUnusable_closed[OF cl q this] show ?thesis .
next
  case (CallStop p)
  with g obtain r where "Stop p w = Inr (r, w')"
    by (cases "Stop p w") auto
  from Stop_closed[OF cl q this] show ?thesis .
qed

lemma run_closed:
  assumes cl: "closedUnder Q"
  shows "Q w \<Longrightarrow> run cs w = Some w' \<Longrightarrow> Q w'"
proof (induction cs arbitrary: w)
  case Nil
  then show ?case by simp
next
  case (Cons c cs)
  from Cons.prems(2) obtain w1 where e: "exec c w = Some w1" and r: "run cs w1 = Some w'"
    by (cases "exec c w") simp_all
  from exec_closed[OF cl Cons.prems(1) e] have "Q w1" .
  from Cons.IH[OF this r] show ?case .
qed

section \<open>Invariants\<close>

lemma pool_at_new_pool [simp]:
  "pool_at (w\<lparr>connPoolCounter := k, pools := pools w @ [P0]\<rparr>) q =
     (if q = length (pools w) then Some P0 else pool_at w q)"
  by (auto simp: pool_at_def nth_append)

lemma conn_at_new_pool [simp]:
  "conn_at (w\<lparr>connPoolCounter := k, pools := ps\<rparr>) a = conn_at w a"
  by (simp add: conn_at_def)






lemma counters_nonnegD:
  "counters_nonneg w \<Longrightarrow> pool_at w p = Some P \<Longrightarrow>
     0 \<le> request (stats P) \<and> 0 \<le> success (stats P)"
  by (simp add: counters_nonneg_def)

lemma counters_nonnegI:
  "(\<And>p P. pool_at w p = Some P \<Longrightarrow> 0 \<le> request (stats P) \<and> 0 \<le> success (stats P)) \<Longrightarrow>
     counters_nonneg w"
  by (simp add: counters_nonneg_def)

lemma counters_nonneg_closed: "closedUnder counters_nonneg"
  unfolding closedUnder_def
proof (intro allI impI)
  fix w w'
  assume inv: "counters_nonneg w"
  note D = counters_nonnegD[OF inv]
  assume "prim w w'"
  then show "counters_nonneg w'"
  proof (cases rule: prim.cases)
    case (p_recv p a)
    from chan_recv_SomeD[OF this] show ?thesis
      by (auto intro!: counters_nonnegI dest!: D split: if_splits)
  next
    case (p_send a c p)
    from chan_send_SomeD[OF this(3)] show ?thesis
      by (auto intro!: counters_nonnegI dest!: D split: if_splits)
  qed (auto intro!: counters_nonnegI dest!: D
        simp: size_dec_def size_inc_def request_inc_def success_inc_def newStats_def
        stats_reset_def factory_called_def markUnusable_def inc_def dec_def
        split: if_splits)
qed

section \<open>Construction and a failing factory\<close>

text \<open>
  Claim C1. When the factory fails while \<^verbatim>\<open>New\<close> creates the first \<open>MinSize\<close>
  connections, \<^verbatim>\<open>New\<close> is to return the factory's error and no pool. The source tests
  the error of \<^verbatim>\<open>p.start()\<close> and then does nothing with it: on the valid configuration
  \<open>cfg1\<close> and a factory whose every call fails, \<^verbatim>\<open>New\<close> returns the pool at address 0
  and no error.
\<close>

theorem New_drops_factory_error:
  "map_sum id fst (New cfg1 (Some factory_fail) [] world0) = Inr (Inr 0)"
  by code_simp

text \<open>
  More generally, once the configuration is valid \<^verbatim>\<open>New\<close> returns no error at all,
  whatever the factory does.
\<close>

lemma New_valid_no_error:
  assumes "validate c = None"
  shows "New c (Some f) os w \<noteq> Inr (Inl err, w')"
proof -
  from New_unfold[OF assms, of f os w] obtain nm k where
    "New c (Some f) os w =
           (case addConnections_loop (nat (MinSize c)) (length (pools w))
                   (w\<lparr>connPoolCounter := k, pools := pools w @ [fresh_pool nm c f]\<rparr>) of
              Inl x \<Rightarrow> Inl x
            | Inr (e, w2) \<Rightarrow> Inr (Inr (length (pools w)), w2))" by blast
  then show ?thesis
    by (cases "addConnections_loop (nat (MinSize c)) (length (pools w))
                   (w\<lparr>connPoolCounter := k, pools := pools w @ [fresh_pool nm c f]\<rparr>)")
      auto
qed

section \<open>Termination of retrieval\<close>

text \<open>
  With an empty idle buffer, room to grow and an increment that is not positive,
  \<^verbatim>\<open>tryGet\<close> asks for no connection and calls \<^verbatim>\<open>get\<close> again in the same state: no
  amount of fuel makes either return.
\<close>

lemma get_no_increment:
  assumes "pool_at w p = Some P" "conns P = Some ch" "buf ch = []"
    "size_c (stats P) < MaxSize (cfg P)" "Increment (cfg P) \<le> 0"
  shows "get n p w = None \<and> tryGet n p w = None"
proof (induction n)
  case 0
  show ?case by simp
next
  case (Suc n)
  from assms have "chan_recv p w = None" by (simp add: chan_recv_def)
  then have g: "get (Suc n) p w = None" using Suc by (simp only: get_Suc_empty)
  from assms have "nat (if Increment (cfg P) + val (size_c (stats P)) > MaxSize (cfg P)
                     then MaxSize (cfg P) - val (size_c (stats P))
                     else Increment (cfg P)) = 0"
    by (simp add: val_def)
  with assms(1,4) Suc have "tryGet (Suc n) p w = None"
    by (simp add: addConnections_def val_def)
  with g show ?case by simp
qed

text \<open>
  Claim C9. \<^verbatim>\<open>Get\<close> is to terminate in every state reachable under a configuration
  that \<^verbatim>\<open>validate\<close> accepts. \<^verbatim>\<open>validate\<close> accepts \<open>cfg_no_increment\<close> (minimum 0,
  maximum 1, increment 0); on the pool that \<^verbatim>\<open>New\<close> builds from it, \<^verbatim>\<open>Get\<close> does not
  return, whatever the fuel.
\<close>

theorem Get_diverges_without_increment:
  "Option.bind (run [CallNew cfg_no_increment (Some factory_ok) []] world0) (Get fuel 0) = None"
proof -
  have "\<exists>w P. run [CallNew cfg_no_increment (Some factory_ok) []] world0 = Some w \<and>
          pool_at w 0 = Some P \<and> conns P = Some \<lparr>buf = [], cap = 1\<rparr> \<and> running P = 1 \<and>
          size_c (stats P) = 0 \<and> cfg P = cfg_no_increment"
    by (simp add: New_def cfg_no_increment_def world0_def init_world_def validate_def
        alloc_pool_def start_def pool_at_def upd_pool_def addConnections_def newStats_def)
  then obtain w P where w: "run [CallNew cfg_no_increment (Some factory_ok) []] world0 = Some w"
    and P: "pool_at w 0 = Some P" "conns P = Some \<lparr>buf = [], cap = 1\<rparr>" "running P = 1"
      "size_c (stats P) = 0" "cfg P = cfg_no_increment" by blast
  have "get fuel 0 w = None"
    using get_no_increment[OF P(1,2), of fuel] P by (simp add: cfg_no_increment_def)
  with P have "Get fuel 0 w = None" by (simp add: Get_def updateStat_def)
  with w show ?thesis by simp
qed

section \<open>What closing a wrapper does\<close>

text \<open>The definitions that evaluating a sequence of calls on a concrete world unfolds.\<close>

lemmas run_defs =
  New_def Get_def conn_Close_def put_def MarkUnusable_def Stop_def start_def
  addConnections_def validate_def alloc_pool_def alloc_conn_def pool_at_def conn_at_def
  upd_pool_def upd_conn_def chan_send_def chan_recv_def time_Now_def rawClose_def
  size_inc_def size_dec_def request_inc_def success_inc_def stats_reset_def
  factory_called_def markUnusable_def isUnUsable_def newConn_def newStats_def
  updateStat_def deferred_Close_def inc_def dec_def val_def itoa_def int64_def
  world0_def init_world_def clock0_def noCloseErr_def factory_ok_def factory_fail_def
  cfg1_def cfg_no_increment_def cfg_no_timeout_def cfg_single_def factory_nil_def
  cfg_negative_timeout_def cfg_single_no_timeout_def clock_before_epoch_def
  world_before_epoch_def

text \<open>
  Claim C5. Let the wrapper at \<open>a\<close> exist and let \<open>P\<close> be its owning pool. If its
  underlying connection is nil, \<^verbatim>\<open>Close\<close> returns the invalid-connection error and
  changes nothing. Otherwise \<^verbatim>\<open>Close\<close> is the pool's \<^verbatim>\<open>put\<close>: a wrapper marked unusable
  has its physical connection closed, and nothing else changes (the size counter is not
  decremented); an unmarked wrapper is appended to the idle buffer when that has room,
  with its \<open>lastUsed\<close> set to the clock reading and the counters unchanged; and when the
  buffer is full or the channel nil, the physical connection is closed and the size
  counter decremented.
\<close>

theorem conn_Close_release:
  assumes c: "conn_at w a = Some c" and P: "pool_at w (conn_p c) = Some P"
  shows "(Conn c = None \<longrightarrow>
            conn_Close a w = Inr (Some (Errorf ''invalid conn, it is nil''), w)) \<and>
         (\<forall>r. Conn c = Some r \<longrightarrow>
            put (conn_p c) a w = conn_Close a w \<and>
            (unUsable c \<longrightarrow>
               conn_Close a w = Inr (closeErr w r, w\<lparr>closed := closed w @ [r]\<rparr>)) \<and>
            (\<not> unUsable c \<longrightarrow>
               (\<forall>ch. conns P = Some ch \<and> length (buf ch) < cap ch \<longrightarrow>
                  (\<exists>w' P' c'. conn_Close a w = Inr (None, w') \<and>
                     pool_at w' (conn_p c) = Some P' \<and>
                     conns P' = Some (ch\<lparr>buf := buf ch @ [a]\<rparr>) \<and>
                     stats P' = stats P \<and>
                     conn_at w' a = Some c' \<and>
                     lastUsed c' = clock w (ticks w) \<and>
                     closed w' = closed w)) \<and>
               (conns P = None \<or> (\<exists>ch. conns P = Some ch \<and> cap ch \<le> length (buf ch)) \<longrightarrow>
                  (\<exists>w' P'. conn_Close a w = Inr (closeErr w r, w') \<and>
                     closed w' = closed w @ [r] \<and>
                     pool_at w' (conn_p c) = Some P' \<and>
                     size_c (stats P') = size_c (stats P) - 1 \<and>
                     conns P' = conns P))))"
proof (intro conjI allI impI)
  assume "Conn c = None"
  with c show "conn_Close a w = Inr (Some (Errorf ''invalid conn, it is nil''), w)"
    by (simp add: conn_Close_def)
next
  fix r assume r: "Conn c = Some r"
  with c have d: "conn_Close a w = put (conn_p c) a w" by (simp add: conn_Close_def)
  then show "put (conn_p c) a w = conn_Close a w" by simp
  {
    assume "unUsable c"
    with c r show "conn_Close a w = Inr (closeErr w r, w\<lparr>closed := closed w @ [r]\<rparr>)"
      unfolding d by (simp add: put_def isUnUsable_def rawClose_def)
  next
    fix ch
    assume u: "\<not> unUsable c" and ch: "conns P = Some ch \<and> length (buf ch) < cap ch"
    let ?w1 = "upd_pool (conn_p c) (\<lambda>P. P\<lparr>conns := Some (ch\<lparr>buf := buf ch @ [a]\<rparr>)\<rparr>) w"
    let ?w' = "upd_conn a (\<lambda>c. c\<lparr>lastUsed := fst (time_Now ?w1)\<rparr>) (snd (time_Now ?w1))"
    from P ch have s: "chan_send (conn_p c) a w = Some ?w1" by (simp add: chan_send_def)
    from c P u s have e: "conn_Close a w = Inr (None, ?w')"
      unfolding d by (simp add: put_def isUnUsable_def case_prod_beta)
    have f1: "pool_at ?w' (conn_p c) = Some (P\<lparr>conns := Some (ch\<lparr>buf := buf ch @ [a]\<rparr>)\<rparr>)"
      using P by simp
    have f2: "conn_at ?w' a = Some (c\<lparr>lastUsed := fst (time_Now ?w1)\<rparr>)"
      using c by simp
    have f3: "fst (time_Now ?w1) = clock w (ticks w)"
      by (simp add: time_Now_def upd_pool_def)
    have f4: "closed ?w' = closed w"
      by (simp add: time_Now_def upd_pool_def upd_conn_def)
    show "\<exists>w' P' c'. conn_Close a w = Inr (None, w') \<and>
                     pool_at w' (conn_p c) = Some P' \<and>
                     conns P' = Some (ch\<lparr>buf := buf ch @ [a]\<rparr>) \<and>
                     stats P' = stats P \<and>
                     conn_at w' a = Some c' \<and>
                     lastUsed c' = clock w (ticks w) \<and>
                     closed w' = closed w"
    proof (intro exI conjI)
      show "conn_Close a w = Inr (None, ?w')" by (rule e)
      show "pool_at ?w' (conn_p c) = Some (P\<lparr>conns := Some (ch\<lparr>buf := buf ch @ [a]\<rparr>)\<rparr>)"
        by (rule f1)
      show "conn_at ?w' a = Some (c\<lparr>lastUsed := fst (time_Now ?w1)\<rparr>)" by (rule f2)
      show "lastUsed (c\<lparr>lastUsed := fst (time_Now ?w1)\<rparr>) = clock w (ticks w)"
        using f3 by simp
      show "closed ?w' = closed w" by (rule f4)
    qed simp_all
  next
    assume u: "\<not> unUsable c"
      and full: "conns P = None \<or> (\<exists>ch. conns P = Some ch \<and> cap ch \<le> length (buf ch))"
    from P full have s: "chan_send (conn_p c) a w = None"
      by (auto simp: chan_send_def)
    let ?w' = "snd (rawClose r (size_dec (conn_p c) w))"
    from c P u s r have e: "conn_Close a w = Inr (closeErr w r, ?w')"
      unfolding d by (simp add: put_def isUnUsable_def rawClose_def size_dec_def upd_pool_def)
    have f1: "pool_at ?w' (conn_p c) =
            Some (P\<lparr>stats := (stats P)\<lparr>size_c := dec (size_c (stats P))\<rparr>\<rparr>)"
      using P by (simp add: size_dec_def)
    have f2: "closed ?w' = closed w @ [r]"
      by (simp add: rawClose_def size_dec_def upd_pool_def)
    show "\<exists>w' P'. conn_Close a w = Inr (closeErr w r, w') \<and>
                     closed w' = closed w @ [r] \<and>
                     pool_at w' (conn_p c) = Some P' \<and>
                     size_c (stats P') = size_c (stats P) - 1 \<and>
                     conns P' = conns P"
    proof (intro exI conjI)
      show "conn_Close a w = Inr (closeErr w r, ?w')" by (rule e)
      show "closed ?w' = closed w @ [r]" by (rule f2)
      show "pool_at ?w' (conn_p c) =
            Some (P\<lparr>stats := (stats P)\<lparr>size_c := dec (size_c (stats P))\<rparr>\<rparr>)" by (rule f1)
    qed (simp_all add: dec_def)
  }
qed


text \<open>
  The four cases on concrete runs: a checked-out wrapper released into a buffer with room;
  a wrapper marked unusable; a wrapper released after \<^verbatim>\<open>Stop\<close>; and a wrapper around the
  nil connection of the tests' factory.
\<close>

theorem conn_Close_release_witness:
  "(\<exists>w c P. run [CallNew cfg1 (Some factory_ok) [], CallGet 2 0] world0 = Some w \<and>
      conn_at w 0 = Some c \<and> pool_at w (conn_p c) = Some P \<and> Conn c = Some 0 \<and>
      \<not> unUsable c \<and> conns P = Some \<lparr>buf = [], cap = 10\<rparr> \<and>
      (\<exists>w' P' c'. conn_Close 0 w = Inr (None, w') \<and> pool_at w' (conn_p c) = Some P' \<and>
          conns P' = Some \<lparr>buf = [0], cap = 10\<rparr> \<and> stats P' = stats P \<and>
          conn_at w' 0 = Some c' \<and> lastUsed c' = clock w (ticks w) \<and> closed w' = closed w)) \<and>
   (\<exists>w c P. run [CallNew cfg1 (Some factory_ok) [], CallGet 2 0,
                  CallMarkUnusable 0 (Wrapper 0)] world0 = Some w \<and>
      conn_at w 0 = Some c \<and> pool_at w (conn_p c) = Some P \<and> Conn c = Some 0 \<and> unUsable c \<and>
      conn_Close 0 w = Inr (closeErr w 0, w\<lparr>closed := closed w @ [0]\<rparr>)) \<and>
   (\<exists>w c P. run [CallNew cfg1 (Some factory_ok) [], CallGet 2 0, CallStop 0] world0 = Some w \<and>
      conn_at w 0 = Some c \<and> pool_at w (conn_p c) = Some P \<and> Conn c = Some 0 \<and>
      \<not> unUsable c \<and> conns P = None \<and>
      (\<exists>w' P'. conn_Close 0 w = Inr (closeErr w 0, w') \<and> closed w' = closed w @ [0] \<and>
          pool_at w' (conn_p c) = Some P' \<and> size_c (stats P') = size_c (stats P) - 1 \<and>
          conns P' = conns P)) \<and>
   (\<exists>w c P. run [CallNew cfg1 (Some factory_nil) [], CallGet 2 0] world0 = Some w \<and>
      conn_at w 0 = Some c \<and> pool_at w (conn_p c) = Some P \<and> Conn c = None \<and>
      conn_Close 0 w = Inr (Some (Errorf ''invalid conn, it is nil''), w))"
proof (intro conjI)
  have "\<exists>w c P. run [CallNew cfg1 (Some factory_ok) [], CallGet 2 0] world0 = Some w \<and>
      conn_at w 0 = Some c \<and> pool_at w (conn_p c) = Some P \<and> Conn c = Some 0 \<and>
      \<not> unUsable c \<and> conns P = Some \<lparr>buf = [], cap = 10\<rparr>"
    by (simp add: run_defs eval_nat_numeral)
  then obtain w c P where h: "run [CallNew cfg1 (Some factory_ok) [], CallGet 2 0] world0 = Some w"
    "conn_at w 0 = Some c" "pool_at w (conn_p c) = Some P" "Conn c = Some 0"
    "\<not> unUsable c" "conns P = Some \<lparr>buf = [], cap = 10\<rparr>" by blast
  from conn_Close_release[OF h(2,3)] h(4,5,6)
  have "\<exists>w' P' c'. conn_Close 0 w = Inr (None, w') \<and> pool_at w' (conn_p c) = Some P' \<and>
          conns P' = Some (\<lparr>buf = [], cap = 10\<rparr>\<lparr>buf := buf \<lparr>buf = [], cap = 10\<rparr> @ [0]\<rparr>) \<and>
          stats P' = stats P \<and>
          conn_at w' 0 = Some c' \<and> lastUsed c' = clock w (ticks w) \<and> closed w' = closed w"
    by auto
  then have "\<exists>w' P' c'. conn_Close 0 w = Inr (None, w') \<and> pool_at w' (conn_p c) = Some P' \<and>
          conns P' = Some \<lparr>buf = [0], cap = 10\<rparr> \<and> stats P' = stats P \<and>
          conn_at w' 0 = Some c' \<and> lastUsed c' = clock w (ticks w) \<and> closed w' = closed w"
    by simp
  with h show "\<exists>w c P. run [CallNew cfg1 (Some factory_ok) [], CallGet 2 0] world0 = Some w \<and>
      conn_at w 0 = Some c \<and> pool_at w (conn_p c) = Some P \<and> Conn c = Some 0 \<and>
      \<not> unUsable c \<and> conns P = Some \<lparr>buf = [], cap = 10\<rparr> \<and>
      (\<exists>w' P' c'. conn_Close 0 w = Inr (None, w') \<and> pool_at w' (conn_p c) = Some P' \<and>
          conns P' = Some \<lparr>buf = [0], cap = 10\<rparr> \<and> stats P' = stats P \<and>
          conn_at w' 0 = Some c' \<and> lastUsed c' = clock w (ticks w) \<and> closed w' = closed w)"
    by blast
next
  have "\<exists>w c P. run [CallNew cfg1 (Some factory_ok) [], CallGet 2 0,
                  CallMarkUnusable 0 (Wrapper 0)] world0 = Some w \<and>
      conn_at w 0 = Some c \<and> pool_at w (conn_p c) = Some P \<and> Conn c = Some 0 \<and> unUsable c"
    by (simp add: run_defs eval_nat_numeral)
  then obtain w c P where h: "run [CallNew cfg1 (Some factory_ok) [], CallGet 2 0,
                  CallMarkUnusable 0 (Wrapper 0)] world0 = Some w"
    "conn_at w 0 = Some c" "pool_at w (conn_p c) = Some P" "Conn c = Some 0" "unUsable c"
    by blast
  from conn_Close_release[OF h(2,3)] h(4,5)
  have "conn_Close 0 w = Inr (closeErr w 0, w\<lparr>closed := closed w @ [0]\<rparr>)" by blast
  with h show "\<exists>w c P. run [CallNew cfg1 (Some factory_ok) [], CallGet 2 0,
                  CallMarkUnusable 0 (Wrapper 0)] world0 = Some w \<and>
      conn_at w 0 = Some c \<and> pool_at w (conn_p c) = Some P \<and> Conn c = Some 0 \<and> unUsable c \<and>
      conn_Close 0 w = Inr (closeErr w 0, w\<lparr>closed := closed w @ [0]\<rparr>)" by blast
next
  have "\<exists>w c P. run [CallNew cfg1 (Some factory_ok) [], CallGet 2 0, CallStop 0] world0 = Some w \<and>
      conn_at w 0 = Some c \<and> pool_at w (conn_p c) = Some P \<and> Conn c = Some 0 \<and>
      \<not> unUsable c \<and> conns P = None"
    by (simp add: run_defs eval_nat_numeral)
  then obtain w c P where h:
    "run [CallNew cfg1 (Some factory_ok) [], CallGet 2 0, CallStop 0] world0 = Some w"
    "conn_at w 0 = Some c" "pool_at w (conn_p c) = Some P" "Conn c = Some 0"
    "\<not> unUsable c" "conns P = None" by blast
  from conn_Close_release[OF h(2,3)] h(4,5,6)
  have "\<exists>w' P'. conn_Close 0 w = Inr (closeErr w 0, w') \<and> closed w' = closed w @ [0] \<and>
          pool_at w' (conn_p c) = Some P' \<and> size_c (stats P') = size_c (stats P) - 1 \<and>
          conns P' = conns P" by auto
  with h show "\<exists>w c P. run [CallNew cfg1 (Some factory_ok) [], CallGet 2 0, CallStop 0] world0 = Some w \<and>
      conn_at w 0 = Some c \<and> pool_at w (conn_p c) = Some P \<and> Conn c = Some 0 \<and>
      \<not> unUsable c \<and> conns P = None \<and>
      (\<exists>w' P'. conn_Close 0 w = Inr (closeErr w 0, w') \<and> closed w' = closed w @ [0] \<and>
          pool_at w' (conn_p c) = Some P' \<and> size_c (stats P') = size_c (stats P) - 1 \<and>
          conns P' = conns P)" by blast
next
  have "\<exists>w c P. run [CallNew cfg1 (Some factory_nil) [], CallGet 2 0] world0 = Some w \<and>
      conn_at w 0 = Some c \<and> pool_at w (conn_p c) = Some P \<and> Conn c = None"
    by (simp add: run_defs factory_nil_def eval_nat_numeral)
  then obtain w c P where h:
    "run [CallNew cfg1 (Some factory_nil) [], CallGet 2 0] world0 = Some w"
    "conn_at w 0 = Some c" "pool_at w (conn_p c) = Some P" "Conn c = None" by blast
  from conn_Close_release[OF h(2,3)] h(4)
  have "conn_Close 0 w = Inr (Some (Errorf ''invalid conn, it is nil''), w)" by blast
  with h show "\<exists>w c P. run [CallNew cfg1 (Some factory_nil) [], CallGet 2 0] world0 = Some w \<and>
      conn_at w 0 = Some c \<and> pool_at w (conn_p c) = Some P \<and> Conn c = None \<and>
      conn_Close 0 w = Inr (Some (Errorf ''invalid conn, it is nil''), w)" by blast
qed

section \<open>Idle expiry\<close>

lemma int64_id:
  "- 9223372036854775808 \<le> x \<Longrightarrow> x < 9223372036854775808 \<Longrightarrow> int64 x = x"
  by (simp add: int64_def)

lemma int64_threshold:
  assumes "0 \<le> d" "d < 9223372036854775808" "0 \<le> t" "t < 9223372036854775808"
  shows "int64 (t + int64 (- d)) = t - d"
proof -
  from assms have "int64 (- d) = - d" by (intro int64_id) simp_all
  moreover from assms have "int64 (t - d) = t - d" by (intro int64_id) simp_all
  ultimately show ?thesis by simp
qed

text \<open>
  Claim C6, as stated, has every retrieved wrapper whose \<open>lastUsed\<close> is nonzero and older
  than now minus the idle timeout closed, with the size counter decremented and the
  retrieval retried. Three runs in which a released wrapper meets that condition at the
  next \<^verbatim>\<open>Get\<close>, each with the wrapper's \<open>lastUsed\<close>, the clock reading of that \<^verbatim>\<open>Get\<close>
  and the comparison with now minus the timeout:
  \<^item> the idle timeout is \<open>- (2 ^ 63 - 1)\<close> nanoseconds, which \<^verbatim>\<open>validate\<close> accepts: now
    minus the timeout does not fit an \<^verbatim>\<open>int64\<close>, the threshold the code computes is
    negative, and \<^verbatim>\<open>Get\<close> returns the wrapper with nothing closed;
  \<^item> the clock reads a time before 1970, so the wrapper's \<open>lastUsed\<close> is negative: the
    code asks for \<open>lastUsed > 0\<close>, and \<^verbatim>\<open>Get\<close> returns the wrapper with nothing closed;
  \<^item> the pool has capacity 1 and increment 0: the size counter is decremented and
    retrieval retried, but the retry finds the buffer empty and cannot grow the pool,
    so it does not return and the deferred close never runs: \<^verbatim>\<open>Get\<close> has no result
    with fuel 50.
\<close>

theorem idle_expiry_not_as_stated:
  "(map_option (map lastUsed \<circ> heap)
      (run [CallNew cfg_negative_timeout (Some factory_ok) [], CallGet 2 0, CallClose 0] world0)
      = Some [1000] \<and>
    map_option ticks
      (run [CallNew cfg_negative_timeout (Some factory_ok) [], CallGet 2 0, CallClose 0] world0)
      = Some 1 \<and>
    clock0 1 = 1001 \<and> (1000 :: int) < 1001 - IdleTimeout cfg_negative_timeout \<and>
    map_option (map_sum id (map_prod id closed))
      (Option.bind
         (run [CallNew cfg_negative_timeout (Some factory_ok) [], CallGet 2 0, CallClose 0]
            world0)
         (Get 1 0)) = Some (Inr (Inr (Wrapper 0), []))) \<and>
   (map_option (map lastUsed \<circ> heap)
      (run [CallNew cfg_no_timeout (Some factory_ok) [], CallGet 2 0, CallClose 0]
         world_before_epoch) = Some [- 1000] \<and>
    map_option ticks
      (run [CallNew cfg_no_timeout (Some factory_ok) [], CallGet 2 0, CallClose 0]
         world_before_epoch) = Some 1 \<and>
    clock_before_epoch 1 = - 999 \<and> (- 1000 :: int) < - 999 - IdleTimeout cfg_no_timeout \<and>
    map_option (map_sum id (map_prod id closed))
      (Option.bind
         (run [CallNew cfg_no_timeout (Some factory_ok) [], CallGet 2 0, CallClose 0]
            world_before_epoch)
         (Get 1 0)) = Some (Inr (Inr (Wrapper 0), []))) \<and>
   (map_option (map lastUsed \<circ> heap)
      (run [CallNew cfg_single_no_timeout (Some factory_ok) [], CallGet 2 0, CallClose 0] world0)
      = Some [1000] \<and>
    map_option ticks
      (run [CallNew cfg_single_no_timeout (Some factory_ok) [], CallGet 2 0, CallClose 0] world0)
      = Some 1 \<and>
    clock0 1 = 1001 \<and> (1000 :: int) < 1001 - IdleTimeout cfg_single_no_timeout \<and>
    map_option closed
      (run [CallNew cfg_single_no_timeout (Some factory_ok) [], CallGet 2 0, CallClose 0] world0)
      = Some [] \<and>
    Option.bind
      (run [CallNew cfg_single_no_timeout (Some factory_ok) [], CallGet 2 0, CallClose 0] world0)
      (Get 50 0) = None)"
  by code_simp

text \<open>
  Claim C6, amended. Let \<^verbatim>\<open>get\<close> retrieve the wrapper \<open>c\<close> at \<open>a\<close> from the idle buffer.
  If \<open>lastUsed\<close> is positive and less than the threshold, which is the clock reading
  minus the idle timeout computed in \<^verbatim>\<open>int64\<close>, then the size counter is decremented and
  retrieval is retried in that state; the close of the wrapper's physical connection
  \<open>r\<close> is deferred, so \<open>r\<close> is closed when the retry returns, whatever it returns.
  Otherwise the wrapper is returned; in particular a wrapper whose \<open>lastUsed\<close> is 0 is
  returned with no other change. When the idle timeout and the clock reading are not
  negative, the threshold is the clock reading minus the idle timeout.
\<close>

theorem get_idle_expiry:
  assumes rc: "chan_recv p w = Some (a, w1)" and c: "conn_at w1 a = Some c"
    and P: "pool_at w1 p = Some P"
  shows "(0 < lastUsed c \<and>
          lastUsed c < int64 (fst (time_Now w1) + int64 (- IdleTimeout (cfg P))) \<longrightarrow>
            map_option (size_c \<circ> stats) (pool_at (size_dec p (snd (time_Now w1))) p) =
              Some (size_c (stats P) - 1) \<and>
            (\<forall>r. Conn c = Some r \<longrightarrow>
               get (Suc n) p w = deferred_Close r (get n p (size_dec p (snd (time_Now w1)))) \<and>
               (\<forall>x w''. get n p (size_dec p (snd (time_Now w1))) = Some (Inr (x, w'')) \<longrightarrow>
                  get (Suc n) p w = Some (Inr (x, w''\<lparr>closed := closed w'' @ [r]\<rparr>))))) \<and>
         (\<not> (0 < lastUsed c \<and>
             lastUsed c < int64 (fst (time_Now w1) + int64 (- IdleTimeout (cfg P)))) \<longrightarrow>
            (\<exists>w'. get (Suc n) p w = Some (Inr (Inr (Wrapper a), w')) \<and>
               pools w' = pools w1 \<and> heap w' = heap w1 \<and> closed w' = closed w1)) \<and>
         (lastUsed c = 0 \<longrightarrow> get (Suc n) p w = Some (Inr (Inr (Wrapper a), w1))) \<and>
         (0 \<le> IdleTimeout (cfg P) \<and> IdleTimeout (cfg P) < 9223372036854775808 \<and>
          0 \<le> fst (time_Now w1) \<and> fst (time_Now w1) < 9223372036854775808 \<longrightarrow>
            int64 (fst (time_Now w1) + int64 (- IdleTimeout (cfg P))) =
              fst (time_Now w1) - IdleTimeout (cfg P))"
proof (intro conjI impI allI)
  assume e: "0 < lastUsed c \<and>
          lastUsed c < int64 (fst (time_Now w1) + int64 (- IdleTimeout (cfg P)))"
  from P show "map_option (size_c \<circ> stats) (pool_at (size_dec p (snd (time_Now w1))) p) =
              Some (size_c (stats P) - 1)"
    by (simp add: size_dec_def dec_def)
  fix r assume r: "Conn c = Some r"
  from e P r show g: "get (Suc n) p w =
      deferred_Close r (get n p (size_dec p (snd (time_Now w1))))"
    unfolding get_Suc_recv[OF rc c] by simp
  fix x w''
  assume "get n p (size_dec p (snd (time_Now w1))) = Some (Inr (x, w''))"
  then show "get (Suc n) p w = Some (Inr (x, w''\<lparr>closed := closed w'' @ [r]\<rparr>))"
    unfolding g by (simp add: deferred_Close_def rawClose_def)
next
  assume ne: "\<not> (0 < lastUsed c \<and>
             lastUsed c < int64 (fst (time_Now w1) + int64 (- IdleTimeout (cfg P))))"
  show "\<exists>w'. get (Suc n) p w = Some (Inr (Inr (Wrapper a), w')) \<and>
               pools w' = pools w1 \<and> heap w' = heap w1 \<and> closed w' = closed w1"
  proof (cases "0 < lastUsed c")
    case True
    with ne P have "get (Suc n) p w = Some (Inr (Inr (Wrapper a), snd (time_Now w1)))"
      unfolding get_Suc_recv[OF rc c] by simp
    then show ?thesis by (simp add: time_Now_def)
  next
    case False
    then have "get (Suc n) p w = Some (Inr (Inr (Wrapper a), w1))"
      unfolding get_Suc_recv[OF rc c] by simp
    then show ?thesis by simp
  qed
next
  assume "lastUsed c = 0"
  then show "get (Suc n) p w = Some (Inr (Inr (Wrapper a), w1))"
    unfolding get_Suc_recv[OF rc c] by simp
next
  assume "0 \<le> IdleTimeout (cfg P) \<and> IdleTimeout (cfg P) < 9223372036854775808 \<and>
          0 \<le> fst (time_Now w1) \<and> fst (time_Now w1) < 9223372036854775808"
  then show "int64 (fst (time_Now w1) + int64 (- IdleTimeout (cfg P))) =
              fst (time_Now w1) - IdleTimeout (cfg P)"
    by (intro int64_threshold) simp_all
qed

text \<open>
  On concrete runs: with an idle timeout of 0 a released wrapper has expired at the next
  \<^verbatim>\<open>Get\<close>, whose retry grows the pool and hands out a new wrapper, after which the old
  physical connection is closed; with the timeout of \<open>cfg1\<close> the released wrapper is
  handed out again; and a wrapper that has never been idle is handed out.
\<close>

theorem get_idle_expiry_witness:
  "(\<exists>w w1 c P w2. run [CallNew cfg_no_timeout (Some factory_ok) [], CallGet 2 0, CallClose 0] world0
        = Some w \<and>
      chan_recv 0 w = Some (0, w1) \<and> conn_at w1 0 = Some c \<and> pool_at w1 0 = Some P \<and>
      Conn c = Some 0 \<and>
      0 < lastUsed c \<and>
      lastUsed c < int64 (fst (time_Now w1) + int64 (- IdleTimeout (cfg P))) \<and>
      0 \<le> IdleTimeout (cfg P) \<and> IdleTimeout (cfg P) < 9223372036854775808 \<and>
      0 \<le> fst (time_Now w1) \<and> fst (time_Now w1) < 9223372036854775808 \<and>
      int64 (fst (time_Now w1) + int64 (- IdleTimeout (cfg P))) =
        fst (time_Now w1) - IdleTimeout (cfg P) \<and>
      map_option (size_c \<circ> stats) (pool_at (size_dec 0 (snd (time_Now w1))) 0) =
        Some (size_c (stats P) - 1) \<and>
      get (Suc 3) 0 w = deferred_Close 0 (get 3 0 (size_dec 0 (snd (time_Now w1)))) \<and>
      get 3 0 (size_dec 0 (snd (time_Now w1))) = Some (Inr (Inr (Wrapper 1), w2)) \<and>
      get (Suc 3) 0 w = Some (Inr (Inr (Wrapper 1), w2\<lparr>closed := closed w2 @ [0]\<rparr>))) \<and>
   (\<exists>w w1 c P. run [CallNew cfg1 (Some factory_ok) [], CallGet 2 0, CallClose 0] world0 = Some w \<and>
      chan_recv 0 w = Some (0, w1) \<and> conn_at w1 0 = Some c \<and> pool_at w1 0 = Some P \<and>
      \<not> (0 < lastUsed c \<and>
         lastUsed c < int64 (fst (time_Now w1) + int64 (- IdleTimeout (cfg P)))) \<and>
      (\<exists>w'. get (Suc 0) 0 w = Some (Inr (Inr (Wrapper 0), w')) \<and>
         pools w' = pools w1 \<and> heap w' = heap w1 \<and> closed w' = closed w1)) \<and>
   (\<exists>w w1 c P. run [CallNew cfg1 (Some factory_ok) []] world0 = Some w \<and>
      chan_recv 0 w = Some (0, w1) \<and> conn_at w1 0 = Some c \<and> pool_at w1 0 = Some P \<and>
      lastUsed c = 0 \<and>
      get (Suc 0) 0 w = Some (Inr (Inr (Wrapper 0), w1)))"
proof (intro conjI)
  have "\<exists>w w1 c P w2. run [CallNew cfg_no_timeout (Some factory_ok) [], CallGet 2 0, CallClose 0] world0
        = Some w \<and>
      chan_recv 0 w = Some (0, w1) \<and> conn_at w1 0 = Some c \<and> pool_at w1 0 = Some P \<and>
      Conn c = Some 0 \<and>
      0 < lastUsed c \<and>
      lastUsed c < int64 (fst (time_Now w1) + int64 (- IdleTimeout (cfg P))) \<and>
      0 \<le> IdleTimeout (cfg P) \<and> IdleTimeout (cfg P) < 9223372036854775808 \<and>
      0 \<le> fst (time_Now w1) \<and> fst (time_Now w1) < 9223372036854775808 \<and>
      get 3 0 (size_dec 0 (snd (time_Now w1))) = Some (Inr (Inr (Wrapper 1), w2))"
    by (simp add: run_defs eval_nat_numeral)
  then obtain w w1 c P w2 where h:
    "run [CallNew cfg_no_timeout (Some factory_ok) [], CallGet 2 0, CallClose 0] world0 = Some w"
    "chan_recv 0 w = Some (0, w1)" "conn_at w1 0 = Some c" "pool_at w1 0 = Some P"
    "Conn c = Some 0"
    "0 < lastUsed c \<and> lastUsed c < int64 (fst (time_Now w1) + int64 (- IdleTimeout (cfg P)))"
    "0 \<le> IdleTimeout (cfg P) \<and> IdleTimeout (cfg P) < 9223372036854775808 \<and>
     0 \<le> fst (time_Now w1) \<and> fst (time_Now w1) < 9223372036854775808"
    "get 3 0 (size_dec 0 (snd (time_Now w1))) = Some (Inr (Inr (Wrapper 1), w2))"
    by blast
  note T = get_idle_expiry[OF h(2,3,4), of 3]
  from T h(6) have a: "map_option (size_c \<circ> stats) (pool_at (size_dec 0 (snd (time_Now w1))) 0) =
        Some (size_c (stats P) - 1)" by blast
  from T h(5,6) have b:
    "get (Suc 3) 0 w = deferred_Close 0 (get 3 0 (size_dec 0 (snd (time_Now w1))))" by blast
  from T h(5,6,8) have d:
    "get (Suc 3) 0 w = Some (Inr (Inr (Wrapper 1), w2\<lparr>closed := closed w2 @ [0]\<rparr>))" by blast
  from T h(7) have e: "int64 (fst (time_Now w1) + int64 (- IdleTimeout (cfg P))) =
        fst (time_Now w1) - IdleTimeout (cfg P)" by blast
  from h a b d e show "\<exists>w w1 c P w2. run [CallNew cfg_no_timeout (Some factory_ok) [], CallGet 2 0, CallClose 0] world0
        = Some w \<and>
      chan_recv 0 w = Some (0, w1) \<and> conn_at w1 0 = Some c \<and> pool_at w1 0 = Some P \<and>
      Conn c = Some 0 \<and>
      0 < lastUsed c \<and>
      lastUsed c < int64 (fst (time_Now w1) + int64 (- IdleTimeout (cfg P))) \<and>
      0 \<le> IdleTimeout (cfg P) \<and> IdleTimeout (cfg P) < 9223372036854775808 \<and>
      0 \<le> fst (time_Now w1) \<and> fst (time_Now w1) < 9223372036854775808 \<and>
      int64 (fst (time_Now w1) + int64 (- IdleTimeout (cfg P))) =
        fst (time_Now w1) - IdleTimeout (cfg P) \<and>
      map_option (size_c \<circ> stats) (pool_at (size_dec 0 (snd (time_Now w1))) 0) =
        Some (size_c (stats P) - 1) \<and>
      get (Suc 3) 0 w = deferred_Close 0 (get 3 0 (size_dec 0 (snd (time_Now w1)))) \<and>
      get 3 0 (size_dec 0 (snd (time_Now w1))) = Some (Inr (Inr (Wrapper 1), w2)) \<and>
      get (Suc 3) 0 w = Some (Inr (Inr (Wrapper 1), w2\<lparr>closed := closed w2 @ [0]\<rparr>))"
    by blast
next
  have "\<exists>w w1 c P. run [CallNew cfg1 (Some factory_ok) [], CallGet 2 0, CallClose 0] world0 = Some w \<and>
      chan_recv 0 w = Some (0, w1) \<and> conn_at w1 0 = Some c \<and> pool_at w1 0 = Some P \<and>
      \<not> (0 < lastUsed c \<and>
         lastUsed c < int64 (fst (time_Now w1) + int64 (- IdleTimeout (cfg P))))"
    by (simp add: run_defs eval_nat_numeral)
  then obtain w w1 c P where h:
    "run [CallNew cfg1 (Some factory_ok) [], CallGet 2 0, CallClose 0] world0 = Some w"
    "chan_recv 0 w = Some (0, w1)" "conn_at w1 0 = Some c" "pool_at w1 0 = Some P"
    "\<not> (0 < lastUsed c \<and>
         lastUsed c < int64 (fst (time_Now w1) + int64 (- IdleTimeout (cfg P))))"
    by blast
  from get_idle_expiry[OF h(2,3,4), of 0] h(5)
  have "\<exists>w'. get (Suc 0) 0 w = Some (Inr (Inr (Wrapper 0), w')) \<and>
         pools w' = pools w1 \<and> heap w' = heap w1 \<and> closed w' = closed w1"
    by blast
  with h show "\<exists>w w1 c P. run [CallNew cfg1 (Some factory_ok) [], CallGet 2 0, CallClose 0] world0 = Some w \<and>
      chan_recv 0 w = Some (0, w1) \<and> conn_at w1 0 = Some c \<and> pool_at w1 0 = Some P \<and>
      \<not> (0 < lastUsed c \<and>
         lastUsed c < int64 (fst (time_Now w1) + int64 (- IdleTimeout (cfg P)))) \<and>
      (\<exists>w'. get (Suc 0) 0 w = Some (Inr (Inr (Wrapper 0), w')) \<and>
         pools w' = pools w1 \<and> heap w' = heap w1 \<and> closed w' = closed w1)"
    by blast
next
  have "\<exists>w w1 c P. run [CallNew cfg1 (Some factory_ok) []] world0 = Some w \<and>
      chan_recv 0 w = Some (0, w1) \<and> conn_at w1 0 = Some c \<and> pool_at w1 0 = Some P \<and>
      lastUsed c = 0"
    by (simp add: run_defs eval_nat_numeral)
  then obtain w w1 c P where h:
    "run [CallNew cfg1 (Some factory_ok) []] world0 = Some w"
    "chan_recv 0 w = Some (0, w1)" "conn_at w1 0 = Some c" "pool_at w1 0 = Some P"
    "lastUsed c = 0"
    by blast
  from get_idle_expiry[OF h(2,3,4), of 0] h(5)
  have "get (Suc 0) 0 w = Some (Inr (Inr (Wrapper 0), w1))"
    by blast
  with h show "\<exists>w w1 c P. run [CallNew cfg1 (Some factory_ok) []] world0 = Some w \<and>
      chan_recv 0 w = Some (0, w1) \<and> conn_at w1 0 = Some c \<and> pool_at w1 0 = Some P \<and>
      lastUsed c = 0 \<and>
      get (Suc 0) 0 w = Some (Inr (Inr (Wrapper 0), w1))"
    by blast
qed

section \<open>Bounded growth\<close>

lemma heap_upd_pool [simp]: "heap (upd_pool p f w) = heap w"
  by (simp add: upd_pool_def)

lemma closed_upd_pool [simp]: "closed (upd_pool p f w) = closed w"
  by (simp add: upd_pool_def)

lemma pools_upd_conn [simp]: "pools (upd_conn a f w) = pools w"
  by (simp add: upd_conn_def)

lemma closed_upd_conn [simp]: "closed (upd_conn a f w) = closed w"
  by (simp add: upd_conn_def)











section \<open>Marked wrappers and stopped pools\<close>

lemma idle_addrs_iff:
  "a \<in> set (idle_addrs w) \<longleftrightarrow>
     (\<exists>p P ch. pool_at w p = Some P \<and> conns P = Some ch \<and> a \<in> set (buf ch))"
proof
  assume "a \<in> set (idle_addrs w)"
  then obtain P where P: "P \<in> set (pools w)" and a: "a \<in> set (idle_of P)"
    by (auto simp: idle_addrs_def)
  from P obtain p where "p < length (pools w)" "pools w ! p = P"
    by (auto simp: in_set_conv_nth)
  then have "pool_at w p = Some P" by (simp add: pool_at_def)
  moreover from a obtain ch where "conns P = Some ch" "a \<in> set (buf ch)"
    by (cases "conns P") (simp_all add: idle_of_def)
  ultimately show "\<exists>p P ch. pool_at w p = Some P \<and> conns P = Some ch \<and> a \<in> set (buf ch)"
    by blast
next
  assume "\<exists>p P ch. pool_at w p = Some P \<and> conns P = Some ch \<and> a \<in> set (buf ch)"
  then obtain p P ch where "pool_at w p = Some P" "conns P = Some ch" "a \<in> set (buf ch)"
    by blast
  then have "P \<in> set (pools w)" "a \<in> set (idle_of P)"
    by (auto simp: pool_at_def idle_of_def split: if_splits)
  then show "a \<in> set (idle_addrs w)" by (auto simp: idle_addrs_def)
qed

lemma markedD: "marked a w \<Longrightarrow> \<exists>c. conn_at w a = Some c \<and> unUsable c"
  by (cases "conn_at w a") (simp_all add: marked_def)

lemma markedI: "conn_at w a = Some c \<Longrightarrow> unUsable c \<Longrightarrow> marked a w"
  by (simp add: marked_def)

lemma conn_at_less: "conn_at w a = Some c \<Longrightarrow> a < length (heap w)"
  by (simp add: conn_at_def split: if_splits)

lemma fst_alloc_conn [simp]: "fst (alloc_conn c w) = length (heap w)"
  by (simp add: alloc_conn_def)

lemma marked_closed: "closedUnder (marked a)"
  unfolding closedUnder_def
proof (intro allI impI)
  fix w w'
  assume inv: "marked a w"
  from markedD[OF inv] obtain c where c: "conn_at w a = Some c" "unUsable c" by blast
  assume "prim w w'"
  then show "marked a w'"
  proof (cases rule: prim.cases)
    case (p_recv p b)
    from chan_recv_SomeD[OF this] c show ?thesis
      by (auto intro!: markedI[of _ _ c])
  next
    case (p_send b c' p)
    from chan_send_SomeD[OF this(3)] c show ?thesis
      by (auto intro!: markedI[of _ _ c])
  next
    case (p_alloc rc p)
    with c conn_at_less[OF c(1)] show ?thesis
      by (auto intro!: markedI[of _ _ c])
  next
    case (p_stamp b t)
    with c show ?thesis
      by (cases "a = b") (auto intro: markedI[of _ _ c] markedI[of _ _ "c\<lparr>lastUsed := t\<rparr>"])
  next
    case (p_mark b)
    with c show ?thesis
      by (cases "a = b")
        (auto intro: markedI[of _ _ c] markedI[of _ _ "c\<lparr>unUsable := True\<rparr>"] simp: markUnusable_def)
  qed (use c in \<open>auto intro!: markedI[of _ _ c]
        simp: size_dec_def size_inc_def request_inc_def success_inc_def
        stats_reset_def factory_called_def\<close>)
qed


lemma idle_addrs_iff_idle_of:
  "a \<in> set (idle_addrs w) \<longleftrightarrow> (\<exists>p P. pool_at w p = Some P \<and> a \<in> set (idle_of P))"
proof
  assume "a \<in> set (idle_addrs w)"
  then obtain p P ch where "pool_at w p = Some P" "conns P = Some ch" "a \<in> set (buf ch)"
    unfolding idle_addrs_iff by blast
  then have "pool_at w p = Some P \<and> a \<in> set (idle_of P)" by (simp add: idle_of_def)
  then show "\<exists>p P. pool_at w p = Some P \<and> a \<in> set (idle_of P)" by blast
next
  assume "\<exists>p P. pool_at w p = Some P \<and> a \<in> set (idle_of P)"
  then obtain p P where P: "pool_at w p = Some P" and a: "a \<in> set (idle_of P)" by blast
  from a obtain ch where "conns P = Some ch" "a \<in> set (buf ch)"
    by (cases "conns P") (simp_all add: idle_of_def)
  with P show "a \<in> set (idle_addrs w)" unfolding idle_addrs_iff by blast
qed

lemma not_idle_upd_pool:
  assumes out: "a \<notin> set (idle_addrs w)"
    and f: "\<And>P. pool_at w p = Some P \<Longrightarrow> a \<notin> set (idle_of P) \<Longrightarrow> a \<notin> set (idle_of (f P))"
  shows "a \<notin> set (idle_addrs (upd_pool p f w))"
proof
  assume "a \<in> set (idle_addrs (upd_pool p f w))"
  then obtain q Q where Q: "pool_at (upd_pool p f w) q = Some Q" and a: "a \<in> set (idle_of Q)"
    unfolding idle_addrs_iff_idle_of by blast
  show False
  proof (cases "q = p")
    case True
    with Q obtain P where P: "pool_at w p = Some P" and QP: "Q = f P" by auto
    from out P have "a \<notin> set (idle_of P)" unfolding idle_addrs_iff_idle_of by blast
    from f[OF P this] a QP show False by simp
  next
    case False
    with Q have "pool_at w q = Some Q" by simp
    with out a show False unfolding idle_addrs_iff_idle_of by blast
  qed
qed

lemma idle_addrs_same_pools: "pools w' = pools w \<Longrightarrow> idle_addrs w' = idle_addrs w"
  by (simp add: idle_addrs_def)

lemma marked_out_closed: "closedUnder (marked_out a)"
  unfolding closedUnder_def
proof (intro allI impI)
  fix w w'
  assume inv: "marked_out a w" and step: "prim w w'"
  from inv have m: "marked a w" and out: "a \<notin> set (idle_addrs w)"
    by (simp_all add: marked_out_def)
  from markedD[OF m] obtain c where c: "conn_at w a = Some c" "unUsable c" by blast
  note U = not_idle_upd_pool[OF out]
  have "marked a w'" using closedD[OF marked_closed m step] .
  moreover from step have "a \<notin> set (idle_addrs w')"
  proof (cases rule: prim.cases)
    case (p_recv p b)
    from chan_recv_SomeD[OF this] obtain P ch rest where
      P: "pool_at w p = Some P" "conns P = Some ch" "buf ch = b # rest" and
      w': "w' = upd_pool p (\<lambda>P. P\<lparr>conns := Some (ch\<lparr>buf := rest\<rparr>)\<rparr>) w" by blast
    show ?thesis unfolding w'
    proof (rule U)
      fix P' assume "pool_at w p = Some P'" "a \<notin> set (idle_of P')"
      with P show "a \<notin> set (idle_of (P'\<lparr>conns := Some (ch\<lparr>buf := rest\<rparr>)\<rparr>))"
        by (simp add: idle_of_def)
    qed
  next
    case (p_send b c' p)
    from chan_send_SomeD[OF this(3)] obtain P ch where
      P: "pool_at w p = Some P" "conns P = Some ch" and
      w': "w' = upd_pool p (\<lambda>P. P\<lparr>conns := Some (ch\<lparr>buf := buf ch @ [b]\<rparr>)\<rparr>) w" by blast
    from p_send(1,2) c have ne: "a \<noteq> b" by auto
    show ?thesis unfolding w'
    proof (rule U)
      fix P' assume "pool_at w p = Some P'" "a \<notin> set (idle_of P')"
      with P ne show "a \<notin> set (idle_of (P'\<lparr>conns := Some (ch\<lparr>buf := buf ch @ [b]\<rparr>)\<rparr>))"
        by (simp add: idle_of_def)
    qed
  next
    case (p_new_pool cf nm f k)
    with out show ?thesis by (simp add: idle_addrs_def idle_of_def)
  next
    case (p_alloc rc p)
    with out show ?thesis by (simp add: idle_addrs_def alloc_conn_def)
  next
    case p_time
    with out show ?thesis by (simp add: idle_addrs_def time_Now_def)
  next
    case (p_rawClose r)
    with out show ?thesis by (simp add: idle_addrs_def rawClose_def)
  next
    case (p_stamp b t)
    with out show ?thesis by (simp add: idle_addrs_def)
  next
    case (p_mark b)
    with out show ?thesis by (simp add: idle_addrs_def markUnusable_def)
  qed (auto intro!: U
        simp: size_dec_def size_inc_def request_inc_def success_inc_def
        stats_reset_def factory_called_def idle_of_def)
  ultimately show "marked_out a w'" by (simp add: marked_out_def)
qed

lemma stoppedD:
  "stopped p w \<Longrightarrow> \<exists>P. pool_at w p = Some P \<and> running P = 0 \<and> conns P = None"
  by (cases "pool_at w p") (simp_all add: stopped_def)

lemma stoppedI:
  "pool_at w p = Some P \<Longrightarrow> running P = 0 \<Longrightarrow> conns P = None \<Longrightarrow> stopped p w"
  by (simp add: stopped_def)

lemma pool_at_less: "pool_at w p = Some P \<Longrightarrow> p < length (pools w)"
  by (simp add: pool_at_def split: if_splits)

lemma stopped_upd_pool:
  assumes "stopped p w"
    and "\<And>P. q = p \<Longrightarrow> pool_at w p = Some P \<Longrightarrow> running P = 0 \<Longrightarrow> conns P = None \<Longrightarrow>
           running (f P) = 0 \<and> conns (f P) = None"
  shows "stopped p (upd_pool q f w)"
proof -
  from stoppedD[OF assms(1)] obtain P where
    P: "pool_at w p = Some P" "running P = 0" "conns P = None" by blast
  show ?thesis
  proof (cases "q = p")
    case True
    from assms(2)[OF True P] P(1) True show ?thesis
      by (intro stoppedI[of _ _ "f P"]) simp_all
  next
    case False
    with P show ?thesis by (intro stoppedI[of _ _ P]) simp_all
  qed
qed

lemma stopped_same_pools: "pools w' = pools w \<Longrightarrow> stopped p w \<Longrightarrow> stopped p w'"
  by (auto simp: stopped_def pool_at_def split: if_splits)

lemma stopped_closed: "closedUnder (stopped p)"
  unfolding closedUnder_def
proof (intro allI impI)
  fix w w'
  assume inv: "stopped p w"
  from stoppedD[OF inv] obtain P where P: "pool_at w p = Some P" "running P = 0" "conns P = None"
    by blast
  note U = stopped_upd_pool[OF inv]
  assume "prim w w'"
  then show "stopped p w'"
  proof (cases rule: prim.cases)
    case (p_recv q b)
    from chan_recv_SomeD[OF this] obtain Q ch rest where
      Q: "pool_at w q = Some Q" "conns Q = Some ch" and
      w': "w' = upd_pool q (\<lambda>P. P\<lparr>conns := Some (ch\<lparr>buf := rest\<rparr>)\<rparr>) w" by blast
    from P Q have "q \<noteq> p" by auto
    then show ?thesis unfolding w' by (intro U) simp
  next
    case (p_send b c' q)
    from chan_send_SomeD[OF this(3)] obtain Q ch where
      Q: "pool_at w q = Some Q" "conns Q = Some ch" and
      w': "w' = upd_pool q (\<lambda>P. P\<lparr>conns := Some (ch\<lparr>buf := buf ch @ [b]\<rparr>)\<rparr>) w" by blast
    from P Q have "q \<noteq> p" by auto
    then show ?thesis unfolding w' by (intro U) simp
  next
    case (p_new_pool cf nm f k)
    from pool_at_less[OF P(1)] have "p \<noteq> length (pools w)" by simp
    then have "pool_at w' p = Some P" unfolding p_new_pool(1) using P(1) by simp
    then show ?thesis using P(2,3) by (rule stoppedI)
  next
    case (p_alloc rc q)
    show ?thesis unfolding p_alloc
      by (rule stopped_same_pools[OF _ inv]) (simp add: alloc_conn_def)
  next
    case p_time
    show ?thesis unfolding p_time
      by (rule stopped_same_pools[OF _ inv]) (simp add: time_Now_def)
  next
    case (p_rawClose r)
    show ?thesis unfolding p_rawClose
      by (rule stopped_same_pools[OF _ inv]) (simp add: rawClose_def)
  next
    case (p_stamp b t)
    show ?thesis unfolding p_stamp
      by (rule stopped_same_pools[OF _ inv]) simp
  next
    case (p_mark b)
    show ?thesis unfolding p_mark
      by (rule stopped_same_pools[OF _ inv]) (simp add: markUnusable_def)
  qed (auto intro!: U
        simp: size_dec_def size_inc_def request_inc_def success_inc_def
        stats_reset_def factory_called_def)
qed

section \<open>Signs of the statistics\<close>

lemma counters_nonneg_init: "counters_nonneg (init_world clk cerr)"
  by (simp add: counters_nonneg_def pool_at_def init_world_def)

text \<open>
  Claim C8, as stated, makes \<open>Active\<close> non-negative in every reachable state. A caller
  that gets a connection, stops the pool and then closes the connection (the order of
  the deferred calls in the package's own example) leaves \<open>Active = - 1\<close>: \<^verbatim>\<open>Stop\<close>
  resets the size counter to 0 and \<^verbatim>\<open>put\<close>, finding the channel nil, decrements it.
  So does a caller that marks the connection it holds twice: each \<^verbatim>\<open>MarkUnusable\<close>
  decrements the size counter.
\<close>

theorem Active_negative_after_Stop:
  "map_option (map Active \<circ> pools)
     (run [CallNew cfg1 (Some factory_ok) [], CallGet 2 0, CallStop 0, CallClose 0] world0)
   = Some [- 1] \<and>
   map_option (map Active \<circ> pools)
     (run [CallNew cfg1 (Some factory_ok) [], CallGet 2 0, CallMarkUnusable 0 (Wrapper 0),
           CallMarkUnusable 0 (Wrapper 0)] world0)
   = Some [- 1]"
  by code_simp

text \<open>
  Claim C8, amended. In every state reached from the empty world by public calls,
  \<open>Available\<close>, \<open>Request\<close> and \<open>Success\<close> of every pool are non-negative. (\<open>Active\<close> is
  the size counter minus \<open>Available\<close> and can be negative.)
\<close>

theorem stats_nonneg:
  assumes "run cs (init_world clk cerr) = Some w" and "pool_at w p = Some P"
  shows "0 \<le> Available P \<and> 0 \<le> Request P \<and> 0 \<le> Success P"
proof -
  from run_closed[OF counters_nonneg_closed counters_nonneg_init assms(1)]
  have "counters_nonneg w" .
  from counters_nonnegD[OF this assms(2)]
  have "0 \<le> Request P" "0 \<le> Success P" by (simp_all add: Request_def Success_def val_def)
  moreover have "0 \<le> Available P"
    by (cases "conns P") (simp_all add: Available_def available_def)
  ultimately show ?thesis by simp
qed

theorem stats_nonneg_witness:
  "\<exists>w P. run [CallNew cfg1 (Some factory_ok) [], CallGet 2 0, CallStop 0, CallClose 0]
            (init_world clock0 noCloseErr) = Some w \<and>
      pool_at w 0 = Some P \<and> 0 \<le> Available P \<and> 0 \<le> Request P \<and> 0 \<le> Success P \<and>
      Active P = - 1"
proof -
  have "\<exists>w P. run [CallNew cfg1 (Some factory_ok) [], CallGet 2 0, CallStop 0, CallClose 0]
            (init_world clock0 noCloseErr) = Some w \<and>
      pool_at w 0 = Some P \<and> Active P = - 1"
    by (simp add: run_defs Active_def available_def eval_nat_numeral)
  then obtain w P where h:
    "run [CallNew cfg1 (Some factory_ok) [], CallGet 2 0, CallStop 0, CallClose 0]
            (init_world clock0 noCloseErr) = Some w"
    "pool_at w 0 = Some P" "Active P = - 1" by blast
  from stats_nonneg[OF h(1,2)] h show ?thesis by blast
qed

section \<open>Marking a wrapper unusable\<close>

text \<open>
  Claim C7, as stated, makes \<^verbatim>\<open>MarkUnusable\<close> a no-op on every argument that is not a
  wrapper produced by this pool. The code asks only whether the argument is a \<^verbatim>\<open>*conn\<close>:
  with two pools, pool 0 marking the wrapper at address 1, which pool 1 produced and
  handed out, sets that wrapper's flag and takes the size counter of pool 0 from 1 to 0.
\<close>

theorem MarkUnusable_foreign_wrapper:
  "map_option (map conn_p \<circ> heap)
     (run [CallNew cfg1 (Some factory_ok) [], CallNew cfg1 (Some factory_ok) [], CallGet 2 1]
        world0) = Some [0, 1] \<and>
   map_option (map (size_c \<circ> stats) \<circ> pools)
     (run [CallNew cfg1 (Some factory_ok) [], CallNew cfg1 (Some factory_ok) [], CallGet 2 1]
        world0) = Some [1, 1] \<and>
   map_option (map (size_c \<circ> stats) \<circ> pools)
     (run [CallNew cfg1 (Some factory_ok) [], CallNew cfg1 (Some factory_ok) [], CallGet 2 1,
           CallMarkUnusable 0 (Wrapper 1)] world0) = Some [0, 1] \<and>
   map_option (map unUsable \<circ> heap)
     (run [CallNew cfg1 (Some factory_ok) [], CallNew cfg1 (Some factory_ok) [], CallGet 2 1,
           CallMarkUnusable 0 (Wrapper 1)] world0) = Some [False, True]"
  by code_simp

text \<open>
  Claim C7, amended. On every wrapper, whichever pool produced it, \<^verbatim>\<open>MarkUnusable\<close> of
  pool \<open>p\<close> sets the wrapper's unusable flag and decrements the size counter of \<open>p\<close> at
  that moment, and no later sequence of public calls clears the flag. On the nil
  interface and on any other implementation of \<^verbatim>\<open>net.Conn\<close> it changes nothing.
\<close>

theorem MarkUnusable_effect:
  assumes P: "pool_at w p = Some P"
  shows "(\<forall>a c. conn_at w a = Some c \<longrightarrow>
            (\<exists>w' P' c'. MarkUnusable p (Wrapper a) w = Inr w' \<and>
               conn_at w' a = Some c' \<and> unUsable c' \<and>
               pool_at w' p = Some P' \<and> size_c (stats P') = size_c (stats P) - 1 \<and>
               (\<forall>cs w''. run cs w' = Some w'' \<longrightarrow> marked a w''))) \<and>
         MarkUnusable p NilConn w = Inr w \<and>
         (\<forall>r. MarkUnusable p (RawConn r) w = Inr w)"
proof (intro conjI allI impI)
  fix a c
  assume c: "conn_at w a = Some c"
  let ?w' = "size_dec p (markUnusable a w)"
  have m: "MarkUnusable p (Wrapper a) w = Inr ?w'"
    using P c by (simp add: MarkUnusable_def)
  have ca: "conn_at ?w' a = Some (c\<lparr>unUsable := True\<rparr>)"
    using c by (simp add: size_dec_def markUnusable_def)
  have pa: "pool_at ?w' p = Some (P\<lparr>stats := (stats P)\<lparr>size_c := dec (size_c (stats P))\<rparr>\<rparr>)"
    using P by (simp add: size_dec_def markUnusable_def)
  have mk: "marked a ?w'" using ca by (simp add: marked_def)
  show "\<exists>w' P' c'. MarkUnusable p (Wrapper a) w = Inr w' \<and>
               conn_at w' a = Some c' \<and> unUsable c' \<and>
               pool_at w' p = Some P' \<and> size_c (stats P') = size_c (stats P) - 1 \<and>
               (\<forall>cs w''. run cs w' = Some w'' \<longrightarrow> marked a w'')"
  proof (intro exI conjI allI impI)
    show "MarkUnusable p (Wrapper a) w = Inr ?w'" by (rule m)
    show "conn_at ?w' a = Some (c\<lparr>unUsable := True\<rparr>)" by (rule ca)
    show "unUsable (c\<lparr>unUsable := True\<rparr>)" by simp
    show "pool_at ?w' p = Some (P\<lparr>stats := (stats P)\<lparr>size_c := dec (size_c (stats P))\<rparr>\<rparr>)"
      by (rule pa)
    show "size_c (stats (P\<lparr>stats := (stats P)\<lparr>size_c := dec (size_c (stats P))\<rparr>\<rparr>)) =
            size_c (stats P) - 1" by (simp add: dec_def)
    fix cs w''
    assume "run cs ?w' = Some w''"
    with mk show "marked a w''" by (rule run_closed[OF marked_closed])
  qed
next
  show "MarkUnusable p NilConn w = Inr w" by (simp add: MarkUnusable_def)
next
  fix r show "MarkUnusable p (RawConn r) w = Inr w" by (simp add: MarkUnusable_def)
qed

text \<open>
  On a concrete run with two pools: pool 0 marks the wrapper that pool 1 handed out; the
  flag is still set after that wrapper is closed; and the nil interface and a raw
  connection leave the world as it is.
\<close>

theorem MarkUnusable_effect_witness:
  "\<exists>w P c. run [CallNew cfg1 (Some factory_ok) [], CallNew cfg1 (Some factory_ok) [],
                 CallGet 2 1] world0 = Some w \<and>
      pool_at w 0 = Some P \<and> conn_at w 1 = Some c \<and> conn_p c = 1 \<and>
      (\<exists>w' P' c' w''. MarkUnusable 0 (Wrapper 1) w = Inr w' \<and>
          conn_at w' 1 = Some c' \<and> unUsable c' \<and>
          pool_at w' 0 = Some P' \<and> size_c (stats P') = size_c (stats P) - 1 \<and>
          run [CallClose 1] w' = Some w'' \<and> marked 1 w'') \<and>
      MarkUnusable 0 NilConn w = Inr w \<and> MarkUnusable 0 (RawConn 7) w = Inr w"
proof -
  have "\<exists>w P c. run [CallNew cfg1 (Some factory_ok) [], CallNew cfg1 (Some factory_ok) [],
                 CallGet 2 1] world0 = Some w \<and>
      pool_at w 0 = Some P \<and> conn_at w 1 = Some c \<and> conn_p c = 1 \<and>
      (\<exists>w''. run [CallClose 1] (size_dec 0 (markUnusable 1 w)) = Some w'')"
    by (simp add: run_defs eval_nat_numeral)
  then obtain w P c w2 where h:
    "run [CallNew cfg1 (Some factory_ok) [], CallNew cfg1 (Some factory_ok) [],
                 CallGet 2 1] world0 = Some w"
    "pool_at w 0 = Some P" "conn_at w 1 = Some c" "conn_p c = 1"
    "run [CallClose 1] (size_dec 0 (markUnusable 1 w)) = Some w2" by blast
  note T = MarkUnusable_effect[OF h(2)]
  from T h(3) obtain w' P' c' where m:
    "MarkUnusable 0 (Wrapper 1) w = Inr w'" "conn_at w' 1 = Some c'" "unUsable c'"
    "pool_at w' 0 = Some P'" "size_c (stats P') = size_c (stats P) - 1"
    "\<forall>cs w''. run cs w' = Some w'' \<longrightarrow> marked 1 w''" by blast
  from m(1) h(2,3) have "w' = size_dec 0 (markUnusable 1 w)" by (simp add: MarkUnusable_def)
  with h(5) have r: "run [CallClose 1] w' = Some w2" by simp
  with m(6) have "marked 1 w2" by blast
  with m r have "\<exists>w' P' c' w''. MarkUnusable 0 (Wrapper 1) w = Inr w' \<and>
          conn_at w' 1 = Some c' \<and> unUsable c' \<and>
          pool_at w' 0 = Some P' \<and> size_c (stats P') = size_c (stats P) - 1 \<and>
          run [CallClose 1] w' = Some w'' \<and> marked 1 w''" by blast
  moreover from T have "MarkUnusable 0 NilConn w = Inr w" "MarkUnusable 0 (RawConn 7) w = Inr w"
    by blast+
  ultimately show ?thesis using h by blast
qed

section \<open>Unusable wrappers and the idle buffer\<close>

lemma chan_recv_idle:
  assumes "chan_recv p w = Some (b, w1)"
  shows "b \<in> set (idle_addrs w)"
proof -
  from chan_recv_SomeD[OF assms] obtain P ch rest where
    "pool_at w p = Some P" "conns P = Some ch" "buf ch = b # rest" by blast
  then show ?thesis unfolding idle_addrs_iff by force
qed

text \<open>
  A wrapper that \<^verbatim>\<open>get\<close> returns was taken from an idle buffer, in a state that any
  predicate kept by the atomic steps still holds in.
\<close>

lemma get_returns_idle_step:
  assumes cl: "closedUnder Q"
    and IH0: "\<forall>p w x w'. Q w \<longrightarrow> get n p w = Some (Inr (Inr x, w')) \<longrightarrow>
                (\<exists>b wi. x = Wrapper b \<and> Q wi \<and> b \<in> set (idle_addrs wi))"
    and IHt0: "\<forall>p w x w'. Q w \<longrightarrow> tryGet n p w = Some (Inr (Inr x, w')) \<longrightarrow>
                (\<exists>b wi. x = Wrapper b \<and> Q wi \<and> b \<in> set (idle_addrs wi))"
    and q: "Q w" and g: "get (Suc n) p w = Some (Inr (Inr x, w'))"
  shows "\<exists>b wi. x = Wrapper b \<and> Q wi \<and> b \<in> set (idle_addrs wi)"
proof (cases "chan_recv p w")
  case None
  with g have "tryGet n p w = Some (Inr (Inr x, w'))" by (simp only: get_Suc_empty)
  with IHt0 q show ?thesis by blast
next
  case (Some aw)
  obtain a w1 where aw: "aw = (a, w1)" by (cases aw)
  with Some have rc: "chan_recv p w = Some (a, w1)" by simp
  have q1: "Q w1" using closedD[OF cl q p_recv[OF rc]] .
  have here: "x = Wrapper a \<Longrightarrow> ?thesis"
    using q chan_recv_idle[OF rc] by blast
  show ?thesis
  proof (cases "conn_at w1 a")
    case None
    with g rc show ?thesis by simp
  next
    case (Some c)
    note gs = g[unfolded get_Suc_recv[OF rc Some]]
    show ?thesis
    proof (cases "0 < lastUsed c")
      case False
      with gs here show ?thesis by simp
    next
      case old: True
      show ?thesis
      proof (cases "pool_at w1 p")
        case None
        with gs old show ?thesis by simp
      next
        case (Some P)
        have q2: "Q (snd (time_Now w1))" using closedD[OF cl q1 p_time] .
        show ?thesis
        proof (cases "lastUsed c < int64 (fst (time_Now w1) + int64 (- IdleTimeout (cfg P)))")
          case False
          with gs old Some here show ?thesis by simp
        next
          case expired: True
          show ?thesis
          proof (cases "Conn c")
            case None
            with gs old Some expired show ?thesis by simp
          next
            case (Some rc')
            with gs old \<open>pool_at w1 p = Some P\<close> expired
            have "deferred_Close rc' (get n p (size_dec p (snd (time_Now w1)))) =
                    Some (Inr (Inr x, w'))" by simp
            from deferred_Close_InrD[OF this] obtain w'' where
              rec: "get n p (size_dec p (snd (time_Now w1))) = Some (Inr (Inr x, w''))" by blast
            have "Q (size_dec p (snd (time_Now w1)))"
              using closedD[OF cl q2 p_size_dec] .
            with IH0 rec show ?thesis by blast
          qed
        qed
      qed
    qed
  qed
qed

lemma tryGet_returns_idle_step:
  assumes cl: "closedUnder Q"
    and IH0: "\<forall>p w x w'. Q w \<longrightarrow> get n p w = Some (Inr (Inr x, w')) \<longrightarrow>
                (\<exists>b wi. x = Wrapper b \<and> Q wi \<and> b \<in> set (idle_addrs wi))"
    and q: "Q w" and g: "tryGet (Suc n) p w = Some (Inr (Inr x, w'))"
  shows "\<exists>b wi. x = Wrapper b \<and> Q wi \<and> b \<in> set (idle_addrs wi)"
proof (cases "pool_at w p")
  case None
  with g show ?thesis by simp
next
  case (Some P)
  show ?thesis
  proof (cases "val (size_c (stats P)) < MaxSize (cfg P)")
    case False
    with g Some show ?thesis by simp
  next
    case True
    let ?n = "if Increment (cfg P) + val (size_c (stats P)) > MaxSize (cfg P)
                     then MaxSize (cfg P) - val (size_c (stats P))
                     else Increment (cfg P)"
    show ?thesis
    proof (cases "addConnections p ?n w")
      case (Inl f)
      with g Some True show ?thesis by simp
    next
      case (Inr ew)
      obtain e w1 where ew: "ew = (e, w1)" by (cases ew)
      with Inr have ac: "addConnections_loop (nat ?n) p w = Inr (e, w1)"
        by (simp add: addConnections_def)
      have q1: "Q w1" using addConnections_loop_closed[OF cl q ac] .
      show ?thesis
      proof (cases e)
        case None
        with g Some True Inr ew have "get n p w1 = Some (Inr (Inr x, w'))" by simp
        with IH0 q1 show ?thesis by blast
      next
        case (Some err)
        with g \<open>pool_at w p = Some P\<close> True Inr ew show ?thesis by simp
      qed
    qed
  qed
qed

lemma get_tryGet_returns_idle:
  assumes cl: "closedUnder Q"
  shows "(\<forall>p w x w'. Q w \<longrightarrow> get n p w = Some (Inr (Inr x, w')) \<longrightarrow>
            (\<exists>b wi. x = Wrapper b \<and> Q wi \<and> b \<in> set (idle_addrs wi))) \<and>
         (\<forall>p w x w'. Q w \<longrightarrow> tryGet n p w = Some (Inr (Inr x, w')) \<longrightarrow>
            (\<exists>b wi. x = Wrapper b \<and> Q wi \<and> b \<in> set (idle_addrs wi)))"
proof (induction n)
  case 0
  show ?case by simp
next
  case (Suc n)
  from Suc have IH: "\<forall>p w x w'. Q w \<longrightarrow> get n p w = Some (Inr (Inr x, w')) \<longrightarrow>
                (\<exists>b wi. x = Wrapper b \<and> Q wi \<and> b \<in> set (idle_addrs wi))"
    by (rule conjunct1)
  from Suc have IHt: "\<forall>p w x w'. Q w \<longrightarrow> tryGet n p w = Some (Inr (Inr x, w')) \<longrightarrow>
                (\<exists>b wi. x = Wrapper b \<and> Q wi \<and> b \<in> set (idle_addrs wi))"
    by (rule conjunct2)
  show ?case
  proof (intro conjI allI impI)
    fix p w x w'
    assume "Q w" "get (Suc n) p w = Some (Inr (Inr x, w'))"
    then show "\<exists>b wi. x = Wrapper b \<and> Q wi \<and> b \<in> set (idle_addrs wi)"
      by (rule get_returns_idle_step[OF cl IH IHt])
  next
    fix p w x w'
    assume "Q w" "tryGet (Suc n) p w = Some (Inr (Inr x, w'))"
    then show "\<exists>b wi. x = Wrapper b \<and> Q wi \<and> b \<in> set (idle_addrs wi)"
      by (rule tryGet_returns_idle_step[OF cl IH])
  qed
qed

lemma Get_returns_idle:
  assumes cl: "closedUnder Q" and q: "Q w" and g: "Get fuel p w = Some (Inr (Inr x, w'))"
  shows "\<exists>b wi. x = Wrapper b \<and> Q wi \<and> b \<in> set (idle_addrs wi)"
proof (cases "pool_at w p")
  case None
  with g show ?thesis by (simp add: Get_def)
next
  case (Some P)
  let ?body = "if conns P = None \<or> running P = 0 then Some (Inr (Inl ErrClosed, w))
             else get fuel p w"
  from g Some have "updateStat p ?body = Some (Inr (Inr x, w'))" by (simp add: Get_def)
  from updateStat_InrD[OF this] obtain w'' where
    body: "?body = Some (Inr (Inr x, w''))" by blast
  then have "get fuel p w = Some (Inr (Inr x, w''))"
    by (cases "conns P = None \<or> running P = 0") simp_all
  with get_tryGet_returns_idle[OF cl, of fuel] q show ?thesis by blast
qed

text \<open>
  Claim C10, as stated, keeps every wrapper in the idle buffer unmarked. A caller that
  gets a connection, closes it and then marks it (it still holds the wrapper) leaves
  wrapper 0 in the idle buffer with its flag set, and the next \<^verbatim>\<open>Get\<close> hands it out.
\<close>

theorem idle_wrapper_marked:
  "map_option idle_marked
     (run [CallNew cfg1 (Some factory_ok) [], CallGet 2 0, CallClose 0,
           CallMarkUnusable 0 (Wrapper 0)] world0) = Some [0] \<and>
   map_option (map_sum id fst)
     (Option.bind
        (run [CallNew cfg1 (Some factory_ok) [], CallGet 2 0, CallClose 0,
              CallMarkUnusable 0 (Wrapper 0)] world0)
        (Get 1 0)) = Some (Inr (Inr (Wrapper 0)))"
  by code_simp

text \<open>
  Claim C10, amended. \<^verbatim>\<open>put\<close> of a wrapper marked unusable changes no pool, so it inserts
  the wrapper into no idle buffer. Hence a wrapper that is marked while it is in no idle
  buffer stays marked and outside every idle buffer through every later sequence of
  public calls, and no later \<^verbatim>\<open>Get\<close> hands it out. (A wrapper marked while it sits in an
  idle buffer stays there.)
\<close>

theorem marked_out_stays_out:
  assumes m: "marked a w" and out: "a \<notin> set (idle_addrs w)" and r: "run cs w = Some w'"
  shows "(\<forall>q e w1. put q a w = Inr (e, w1) \<longrightarrow> pools w1 = pools w) \<and>
         marked a w' \<and> a \<notin> set (idle_addrs w') \<and>
         (\<forall>fuel p x w''. Get fuel p w' = Some (Inr (Inr x, w'')) \<longrightarrow> x \<noteq> Wrapper a)"
proof (intro conjI allI impI)
  fix q e w1
  assume p: "put q a w = Inr (e, w1)"
  from markedD[OF m] obtain c where c: "conn_at w a = Some c" "unUsable c" by blast
  with p have "\<exists>r. rawClose r w = (e, w1)"
    by (cases "Conn c") (auto simp: put_def isUnUsable_def)
  then show "pools w1 = pools w" by (auto simp: rawClose_def)
next
  from m out have "marked_out a w" by (simp add: marked_out_def)
  from run_closed[OF marked_out_closed this r] have mo: "marked_out a w'" .
  then show "marked a w'" "a \<notin> set (idle_addrs w')" by (simp_all add: marked_out_def)
  fix fuel p x w''
  assume "Get fuel p w' = Some (Inr (Inr x, w''))"
  from Get_returns_idle[OF marked_out_closed mo this] obtain b wi where
    "x = Wrapper b" "marked_out a wi" "b \<in> set (idle_addrs wi)" by blast
  then show "x \<noteq> Wrapper a" by (auto simp: marked_out_def)
qed

text \<open>
  On a concrete run: a connection is checked out and marked; after it is closed and
  another \<^verbatim>\<open>Get\<close> has grown the pool, it is still marked and in no idle buffer, and that
  \<^verbatim>\<open>Get\<close> handed out wrapper 1.
\<close>

theorem marked_out_stays_out_witness:
  "\<exists>w w'. run [CallNew cfg1 (Some factory_ok) [], CallGet 2 0,
                CallMarkUnusable 0 (Wrapper 0)] world0 = Some w \<and>
      marked 0 w \<and> 0 \<notin> set (idle_addrs w) \<and>
      run [CallClose 0] w = Some w' \<and>
      (\<exists>e w1. put 0 0 w = Inr (e, w1) \<and> pools w1 = pools w) \<and>
      marked 0 w' \<and> 0 \<notin> set (idle_addrs w') \<and>
      (\<exists>w''. Get 3 0 w' = Some (Inr (Inr (Wrapper 1), w'')) \<and> Wrapper 1 \<noteq> Wrapper 0)"
proof -
  have "\<exists>w w'. run [CallNew cfg1 (Some factory_ok) [], CallGet 2 0,
                CallMarkUnusable 0 (Wrapper 0)] world0 = Some w \<and>
      marked 0 w \<and> 0 \<notin> set (idle_addrs w) \<and>
      run [CallClose 0] w = Some w' \<and>
      (\<exists>e w1. put 0 0 w = Inr (e, w1)) \<and>
      (\<exists>w''. Get 3 0 w' = Some (Inr (Inr (Wrapper 1), w'')))"
    by (simp add: run_defs marked_def idle_addrs_def idle_of_def eval_nat_numeral)
  then obtain w w' e w1 w'' where h:
    "run [CallNew cfg1 (Some factory_ok) [], CallGet 2 0,
                CallMarkUnusable 0 (Wrapper 0)] world0 = Some w"
    "marked 0 w" "0 \<notin> set (idle_addrs w)" "run [CallClose 0] w = Some w'"
    "put 0 0 w = Inr (e, w1)" "Get 3 0 w' = Some (Inr (Inr (Wrapper 1), w''))" by blast
  note T = marked_out_stays_out[OF h(2,3,4)]
  from T h(5) have "pools w1 = pools w" by blast
  moreover from T have "marked 0 w'" "0 \<notin> set (idle_addrs w')" by blast+
  moreover from T h(6) have "Wrapper 1 \<noteq> Wrapper 0" by blast
  ultimately show ?thesis using h by blast
qed

section \<open>After Stop\<close>

lemma drain_pool_at:
  "drain as errMsgs w = Inr (msgs, w') \<Longrightarrow> pools w' = pools w"
proof (induction as arbitrary: errMsgs w)
  case Nil
  then show ?case by simp
next
  case (Cons a as)
  from Cons.prems obtain c where c: "conn_at w a = Some c"
    by (cases "conn_at w a") simp_all
  show ?case
  proof (cases "Conn c")
    case None
    with Cons c show ?thesis by simp
  next
    case (Some r)
    from Cons.prems c Some
    have "\<exists>em. drain as em (snd (rawClose r w)) = Inr (msgs, w')"
      by (cases "closeErr w r") (auto simp: rawClose_def)
    then obtain em where "drain as em (snd (rawClose r w)) = Inr (msgs, w')" ..
    from Cons.IH[OF this] show ?thesis by (simp add: rawClose_def)
  qed
qed

lemma Stop_running:
  assumes P: "pool_at w p = Some P" and run: "running P = 1" and s: "Stop p w = Inr (e, w1)"
  shows "pool_at w1 p = Some (P\<lparr>running := 0, stats := \<lparr>size_c = 0, request = 0, success = 0\<rparr>,
                                conns := None\<rparr>)"
proof -
  let ?w0 = "stats_reset p (upd_pool p (\<lambda>P. P\<lparr>running := 0\<rparr>) w)"
  from s P run obtain ch where ch: "conns P = Some ch"
    by (cases "conns P") (simp_all add: Stop_def)
  with s P run obtain mw where mw: "drain (buf ch) [] ?w0 = Inr mw"
    by (cases "drain (buf ch) [] ?w0") (simp_all add: Stop_def)
  obtain msgs w2 where mw2: "mw = (msgs, w2)" by (cases mw)
  from s P run ch mw mw2
  have w1: "w1 = upd_pool p (\<lambda>P. P\<lparr>conns := None\<rparr>) w2"
    by (simp add: Stop_def split: if_splits)
  from drain_pool_at[OF mw[unfolded mw2]] have "pools w2 = pools ?w0" .
  then have "pool_at w2 p = pool_at ?w0 p" by (simp add: pool_at_def)
  with P have "pool_at w2 p =
      Some (P\<lparr>running := 0, stats := \<lparr>size_c = 0, request = 0, success = 0\<rparr>\<rparr>)"
    by (simp add: stats_reset_def)
  then show ?thesis unfolding w1 by simp
qed

lemma stopped_Stop: "stopped p w \<Longrightarrow> Stop p w = Inr (None, w)"
  by (auto dest!: stoppedD simp: Stop_def)

lemma stopped_Get:
  "stopped p w \<Longrightarrow> Get fuel p w = Some (Inr (Inl ErrClosed, request_inc p w))"
  by (auto dest!: stoppedD simp: Get_def updateStat_def)

text \<open>
  Claim C2, as stated, has the statistics report zero for every counter after the first
  \<^verbatim>\<open>Stop\<close>. A \<^verbatim>\<open>Get\<close> after \<^verbatim>\<open>Stop\<close> returns \<^verbatim>\<open>ErrClosed\<close> and, through the deferred
  \<^verbatim>\<open>updateStat\<close>, still counts as a request: \<open>Request\<close> is 1.
\<close>

theorem Request_counts_after_Stop:
  "map_option (map_sum id fst)
     (Option.bind (run [CallNew cfg1 (Some factory_ok) [], CallStop 0] world0) (Get 1 0))
     = Some (Inr (Inl ErrClosed)) \<and>
   map_option (map Request \<circ> pools)
     (run [CallNew cfg1 (Some factory_ok) [], CallStop 0, CallGet 1 0] world0) = Some [1]"
  by code_simp

text \<open>
  Claim C2, amended. When \<^verbatim>\<open>Stop\<close> returns on a running pool, \<open>Request\<close>, \<open>Success\<close>,
  \<open>Active\<close> and \<open>Available\<close> are all zero in the state it leaves. In that state and in
  every state reached from it by public calls, \<^verbatim>\<open>Stop\<close> returns no error and changes
  nothing, and \<^verbatim>\<open>Get\<close> returns \<^verbatim>\<open>ErrClosed\<close> and changes nothing but the request counter,
  which it increments.
\<close>

theorem Stop_then_closed:
  assumes P: "pool_at w p = Some P" and run: "running P = 1" and s: "Stop p w = Inr (e, w1)"
  shows "(\<exists>P1. pool_at w1 p = Some P1 \<and> Request P1 = 0 \<and> Success P1 = 0 \<and>
            Active P1 = 0 \<and> Available P1 = 0) \<and>
         (\<forall>cs w2. run cs w1 = Some w2 \<longrightarrow>
            Stop p w2 = Inr (None, w2) \<and>
            (\<forall>fuel. Get fuel p w2 = Some (Inr (Inl ErrClosed, request_inc p w2))) \<and>
            map_option Request (pool_at (request_inc p w2) p) =
              map_option (\<lambda>P2. Request P2 + 1) (pool_at w2 p))"
proof (intro conjI allI impI)
  note P1 = Stop_running[OF P run s]
  show "\<exists>P1. pool_at w1 p = Some P1 \<and> Request P1 = 0 \<and> Success P1 = 0 \<and>
            Active P1 = 0 \<and> Available P1 = 0"
    by (intro exI conjI, rule P1)
      (simp_all add: Request_def Success_def Active_def Available_def available_def val_def)
  have st: "stopped p w1" by (rule stoppedI[OF P1]) simp_all
  fix cs w2
  assume "run cs w1 = Some w2"
  from run_closed[OF stopped_closed st this] have st2: "stopped p w2" .
  then show "Stop p w2 = Inr (None, w2)" by (rule stopped_Stop)
  show "map_option Request (pool_at (request_inc p w2) p) =
              map_option (\<lambda>P2. Request P2 + 1) (pool_at w2 p)"
    by (cases "pool_at w2 p") (simp_all add: request_inc_def Request_def inc_def val_def)
  fix fuel
  from st2 show "Get fuel p w2 = Some (Inr (Inl ErrClosed, request_inc p w2))"
    by (rule stopped_Get)
qed

text \<open>
  On a concrete run: the pool of \<open>cfg1\<close> is stopped; after a \<^verbatim>\<open>Get\<close> and a second
  \<^verbatim>\<open>Stop\<close>, \<^verbatim>\<open>Stop\<close> is a no-op, \<^verbatim>\<open>Get\<close> returns \<^verbatim>\<open>ErrClosed\<close>, and \<open>Request\<close> goes from 1
  to 2.
\<close>

theorem Stop_then_closed_witness:
  "\<exists>w P e w1 w2. run [CallNew cfg1 (Some factory_ok) []] world0 = Some w \<and>
      pool_at w 0 = Some P \<and> running P = 1 \<and> Stop 0 w = Inr (e, w1) \<and>
      (\<exists>P1. pool_at w1 0 = Some P1 \<and> Request P1 = 0 \<and> Success P1 = 0 \<and>
            Active P1 = 0 \<and> Available P1 = 0) \<and>
      run [CallGet 1 0, CallStop 0] w1 = Some w2 \<and>
      Stop 0 w2 = Inr (None, w2) \<and>
      Get 5 0 w2 = Some (Inr (Inl ErrClosed, request_inc 0 w2)) \<and>
      map_option Request (pool_at w2 0) = Some 1 \<and>
      map_option Request (pool_at (request_inc 0 w2) 0) = Some 2"
proof -
  have "\<exists>w P e w1 w2. run [CallNew cfg1 (Some factory_ok) []] world0 = Some w \<and>
      pool_at w 0 = Some P \<and> running P = 1 \<and> Stop 0 w = Inr (e, w1) \<and>
      run [CallGet 1 0, CallStop 0] w1 = Some w2 \<and>
      map_option Request (pool_at w2 0) = Some 1"
    by (simp add: run_defs Request_def eval_nat_numeral)
  then obtain w P e w1 w2 where h:
    "run [CallNew cfg1 (Some factory_ok) []] world0 = Some w"
    "pool_at w 0 = Some P" "running P = 1" "Stop 0 w = Inr (e, w1)"
    "run [CallGet 1 0, CallStop 0] w1 = Some w2"
    "map_option Request (pool_at w2 0) = Some 1" by blast
  note T = Stop_then_closed[OF h(2,3,4)]
  from T have a: "\<exists>P1. pool_at w1 0 = Some P1 \<and> Request P1 = 0 \<and> Success P1 = 0 \<and>
            Active P1 = 0 \<and> Available P1 = 0" by blast
  from T h(5) have b: "Stop 0 w2 = Inr (None, w2)"
    "Get 5 0 w2 = Some (Inr (Inl ErrClosed, request_inc 0 w2))"
    "map_option Request (pool_at (request_inc 0 w2) 0) =
              map_option (\<lambda>P2. Request P2 + 1) (pool_at w2 0)" by blast+
  from b(3) h(6) have c: "map_option Request (pool_at (request_inc 0 w2) 0) = Some 2"
    by (cases "pool_at w2 0") simp_all
  from h a b(1,2) c show ?thesis by blast
qed

section \<open>Closing a wrapper twice\<close>

lemma put_room:
  assumes c: "conn_at w a = Some c" and u: "\<not> unUsable c"
    and P: "pool_at w p = Some P" and ch: "conns P = Some ch" and room: "length (buf ch) < cap ch"
  shows "put p a w =
           Inr (None, upd_conn a (\<lambda>c. c\<lparr>lastUsed := clock w (ticks w)\<rparr>)
                  (snd (time_Now (upd_pool p (\<lambda>P. P\<lparr>conns := Some (ch\<lparr>buf := buf ch @ [a]\<rparr>)\<rparr>) w))))"
proof -
  from P ch room have "chan_send p a w =
      Some (upd_pool p (\<lambda>P. P\<lparr>conns := Some (ch\<lparr>buf := buf ch @ [a]\<rparr>)\<rparr>) w)"
    by (simp add: chan_send_def)
  with c u P show ?thesis
    by (simp add: put_def isUnUsable_def case_prod_beta time_Now_def upd_pool_def)
qed

lemma put_full:
  assumes c: "conn_at w a = Some c" and u: "\<not> unUsable c" and r: "Conn c = Some r"
    and P: "pool_at w p = Some P" and ch: "conns P = Some ch" and full: "cap ch \<le> length (buf ch)"
  shows "put p a w = Inr (closeErr w r, snd (rawClose r (size_dec p w)))"
proof -
  from P ch full have "chan_send p a w = None" by (simp add: chan_send_def)
  with c u r P show ?thesis
    by (simp add: put_def isUnUsable_def rawClose_def size_dec_def upd_pool_def)
qed

text \<open>
  Claim C4, as stated, makes a second \<^verbatim>\<open>Close\<close> of a released wrapper leave the idle
  buffer alone. Neither \<^verbatim>\<open>Close\<close> nor \<^verbatim>\<open>put\<close> records that a wrapper has been released:
  closing wrapper 0 twice puts its address into the idle buffer twice.
\<close>

theorem Close_twice_inserts_twice:
  "map_option (map conns \<circ> pools)
     (run [CallNew cfg1 (Some factory_ok) [], CallGet 2 0, CallClose 0] world0)
   = Some [Some \<lparr>buf = [0], cap = 10\<rparr>] \<and>
   map_option (map conns \<circ> pools)
     (run [CallNew cfg1 (Some factory_ok) [], CallGet 2 0, CallClose 0, CallClose 0] world0)
   = Some [Some \<lparr>buf = [0, 0], cap = 10\<rparr>]"
  by code_simp

text \<open>
  Claim C4, amended. \<^verbatim>\<open>Close\<close> on a wrapper that already sits in the idle buffer of its
  pool (with a physical connection, not marked unusable) does what a first \<^verbatim>\<open>Close\<close>
  does: when the buffer has room the wrapper is inserted once more, so that the buffer
  holds it one more time than before, and the size counter is unchanged; when the buffer
  is full the physical connection is closed and the size counter is decremented.
\<close>

theorem conn_Close_again:
  assumes c: "conn_at w a = Some c" and r: "Conn c = Some r" and u: "\<not> unUsable c"
    and P: "pool_at w (conn_p c) = Some P" and ch: "conns P = Some ch"
    and idle: "a \<in> set (buf ch)"
  shows "(length (buf ch) < cap ch \<longrightarrow>
            (\<exists>w' P' ch'. conn_Close a w = Inr (None, w') \<and>
               pool_at w' (conn_p c) = Some P' \<and> conns P' = Some ch' \<and>
               buf ch' = buf ch @ [a] \<and>
               count_list (buf ch') a = Suc (count_list (buf ch) a) \<and>
               size_c (stats P') = size_c (stats P))) \<and>
         (cap ch \<le> length (buf ch) \<longrightarrow>
            (\<exists>w' P'. conn_Close a w = Inr (closeErr w r, w') \<and>
               pool_at w' (conn_p c) = Some P' \<and> conns P' = conns P \<and>
               size_c (stats P') = size_c (stats P) - 1 \<and>
               closed w' = closed w @ [r]))"
proof (intro conjI impI)
  from c r have d: "conn_Close a w = put (conn_p c) a w" by (simp add: conn_Close_def)
  {
    assume room: "length (buf ch) < cap ch"
    let ?w' = "upd_conn a (\<lambda>c. c\<lparr>lastUsed := clock w (ticks w)\<rparr>)
                  (snd (time_Now (upd_pool (conn_p c)
                     (\<lambda>P. P\<lparr>conns := Some (ch\<lparr>buf := buf ch @ [a]\<rparr>)\<rparr>) w)))"
    show "\<exists>w' P' ch'. conn_Close a w = Inr (None, w') \<and>
               pool_at w' (conn_p c) = Some P' \<and> conns P' = Some ch' \<and>
               buf ch' = buf ch @ [a] \<and>
               count_list (buf ch') a = Suc (count_list (buf ch) a) \<and>
               size_c (stats P') = size_c (stats P)"
    proof (intro exI conjI)
      show "conn_Close a w = Inr (None, ?w')"
        unfolding d by (rule put_room[OF c u P ch room])
      show "pool_at ?w' (conn_p c) = Some (P\<lparr>conns := Some (ch\<lparr>buf := buf ch @ [a]\<rparr>)\<rparr>)"
        using P by simp
      show "conns (P\<lparr>conns := Some (ch\<lparr>buf := buf ch @ [a]\<rparr>)\<rparr>) = Some (ch\<lparr>buf := buf ch @ [a]\<rparr>)"
        by simp
    qed simp_all
  next
    assume full: "cap ch \<le> length (buf ch)"
    let ?w' = "snd (rawClose r (size_dec (conn_p c) w))"
    show "\<exists>w' P'. conn_Close a w = Inr (closeErr w r, w') \<and>
               pool_at w' (conn_p c) = Some P' \<and> conns P' = conns P \<and>
               size_c (stats P') = size_c (stats P) - 1 \<and>
               closed w' = closed w @ [r]"
    proof (intro exI conjI)
      show "conn_Close a w = Inr (closeErr w r, ?w')"
        unfolding d by (rule put_full[OF c u r P ch full])
      show "pool_at ?w' (conn_p c) =
              Some (P\<lparr>stats := (stats P)\<lparr>size_c := dec (size_c (stats P))\<rparr>\<rparr>)"
        using P by (simp add: size_dec_def)
      show "closed ?w' = closed w @ [r]" by (simp add: rawClose_def size_dec_def)
    qed (simp_all add: dec_def)
  }
qed

text \<open>
  On concrete runs: the released wrapper of the pool of \<open>cfg1\<close> is closed a second time
  and is in the buffer twice; the released wrapper of a pool of capacity 1 is closed a
  second time, which closes its physical connection and takes the size counter to 0.
\<close>

theorem conn_Close_again_witness:
  "(\<exists>w c P. run [CallNew cfg1 (Some factory_ok) [], CallGet 2 0, CallClose 0] world0 = Some w \<and>
      conn_at w 0 = Some c \<and> Conn c = Some 0 \<and> \<not> unUsable c \<and>
      pool_at w (conn_p c) = Some P \<and> conns P = Some \<lparr>buf = [0], cap = 10\<rparr> \<and>
      (\<exists>w' P' ch'. conn_Close 0 w = Inr (None, w') \<and>
          pool_at w' (conn_p c) = Some P' \<and> conns P' = Some ch' \<and> buf ch' = [0, 0] \<and>
          count_list (buf ch') 0 = Suc (Suc 0) \<and> size_c (stats P') = size_c (stats P))) \<and>
   (\<exists>w c P. run [CallNew cfg_single (Some factory_ok) [], CallGet 2 0, CallClose 0] world0
        = Some w \<and>
      conn_at w 0 = Some c \<and> Conn c = Some 0 \<and> \<not> unUsable c \<and>
      pool_at w (conn_p c) = Some P \<and> conns P = Some \<lparr>buf = [0], cap = 1\<rparr> \<and>
      size_c (stats P) = 1 \<and>
      (\<exists>w' P'. conn_Close 0 w = Inr (closeErr w 0, w') \<and>
          pool_at w' (conn_p c) = Some P' \<and> conns P' = conns P \<and>
          size_c (stats P') = 0 \<and> closed w' = closed w @ [0]))"
proof (intro conjI)
  have "\<exists>w c P. run [CallNew cfg1 (Some factory_ok) [], CallGet 2 0, CallClose 0] world0 = Some w \<and>
      conn_at w 0 = Some c \<and> Conn c = Some 0 \<and> \<not> unUsable c \<and>
      pool_at w (conn_p c) = Some P \<and> conns P = Some \<lparr>buf = [0], cap = 10\<rparr>"
    by (simp add: run_defs eval_nat_numeral)
  then obtain w c P where h:
    "run [CallNew cfg1 (Some factory_ok) [], CallGet 2 0, CallClose 0] world0 = Some w"
    "conn_at w 0 = Some c" "Conn c = Some 0" "\<not> unUsable c"
    "pool_at w (conn_p c) = Some P" "conns P = Some \<lparr>buf = [0], cap = 10\<rparr>" by blast
  have i: "0 \<in> set (buf \<lparr>buf = [0], cap = 10\<rparr>)" by simp
  from conn_Close_again[OF h(2,3,4,5,6) i]
  have "\<exists>w' P' ch'. conn_Close 0 w = Inr (None, w') \<and>
          pool_at w' (conn_p c) = Some P' \<and> conns P' = Some ch' \<and> buf ch' = [0, 0] \<and>
          count_list (buf ch') 0 = Suc (Suc 0) \<and> size_c (stats P') = size_c (stats P)"
    by simp
  with h show "\<exists>w c P. run [CallNew cfg1 (Some factory_ok) [], CallGet 2 0, CallClose 0] world0 = Some w \<and>
      conn_at w 0 = Some c \<and> Conn c = Some 0 \<and> \<not> unUsable c \<and>
      pool_at w (conn_p c) = Some P \<and> conns P = Some \<lparr>buf = [0], cap = 10\<rparr> \<and>
      (\<exists>w' P' ch'. conn_Close 0 w = Inr (None, w') \<and>
          pool_at w' (conn_p c) = Some P' \<and> conns P' = Some ch' \<and> buf ch' = [0, 0] \<and>
          count_list (buf ch') 0 = Suc (Suc 0) \<and> size_c (stats P') = size_c (stats P))" by blast
next
  have "\<exists>w c P. run [CallNew cfg_single (Some factory_ok) [], CallGet 2 0, CallClose 0] world0
        = Some w \<and>
      conn_at w 0 = Some c \<and> Conn c = Some 0 \<and> \<not> unUsable c \<and>
      pool_at w (conn_p c) = Some P \<and> conns P = Some \<lparr>buf = [0], cap = 1\<rparr> \<and>
      size_c (stats P) = 1"
    by (simp add: run_defs eval_nat_numeral)
  then obtain w c P where h:
    "run [CallNew cfg_single (Some factory_ok) [], CallGet 2 0, CallClose 0] world0 = Some w"
    "conn_at w 0 = Some c" "Conn c = Some 0" "\<not> unUsable c"
    "pool_at w (conn_p c) = Some P" "conns P = Some \<lparr>buf = [0], cap = 1\<rparr>"
    "size_c (stats P) = 1" by blast
  have i: "0 \<in> set (buf \<lparr>buf = [0], cap = 1\<rparr>)" by simp
  from conn_Close_again[OF h(2,3,4,5,6) i] h(7)
  have "\<exists>w' P'. conn_Close 0 w = Inr (closeErr w 0, w') \<and>
          pool_at w' (conn_p c) = Some P' \<and> conns P' = conns P \<and>
          size_c (stats P') = 0 \<and> closed w' = closed w @ [0]"
    by simp
  with h show "\<exists>w c P. run [CallNew cfg_single (Some factory_ok) [], CallGet 2 0, CallClose 0] world0
        = Some w \<and>
      conn_at w 0 = Some c \<and> Conn c = Some 0 \<and> \<not> unUsable c \<and>
      pool_at w (conn_p c) = Some P \<and> conns P = Some \<lparr>buf = [0], cap = 1\<rparr> \<and>
      size_c (stats P) = 1 \<and>
      (\<exists>w' P'. conn_Close 0 w = Inr (closeErr w 0, w') \<and>
          pool_at w' (conn_p c) = Some P' \<and> conns P' = conns P \<and>
          size_c (stats P') = 0 \<and> closed w' = closed w @ [0])" by blast
qed

end
